theory Spec2Isabelle
  imports Main "HOL-Library.Multiset"
begin

section \<open>Data model of core.py\<close>

text \<open>
  Python integers are unbounded, so cells, scores and the win tile are \<open>int\<close>.
  A board is a list of rows. Indices produced by \<open>range(n)\<close> are natural numbers.
  The only exception the core raises itself is \<open>ValueError\<close>; an out-of-range list
  write would raise \<open>IndexError\<close>.
\<close>

datatype error = ValueError | IndexError

datatype GameProgressState = IN_PROGRESS | GAME_OVER | GAME_WON

datatype DIRECTION = UP | DOWN | LEFT | RIGHT

text \<open>
  A value passed as \<open>direction\<close> is either a member of the enumeration or something
  else, for which every comparison \<open>direction == DIRECTION.X\<close> is false.
\<close>

datatype direction_arg = Dir DIRECTION | NoDir

text \<open>
  A value passed as \<open>size\<close> either passes \<open>isinstance(size, int)\<close> (an integer; a
  Python \<open>bool\<close> passes too and counts as 0 or 1) or it does not.
\<close>

datatype size_arg = IntSize int | NonInt

type_synonym board = "int list list"

text \<open>
  The two draws \<open>add_random_tile\<close> takes from the random source: the position
  \<open>random.choice\<close> selects in the list of empty cells (any position of the list, here
  the draw reduced modulo its length), and whether \<open>random.random() < 0.1\<close>.
\<close>

record draw =
  pick :: nat
  below_tenth :: bool

section \<open>Board helper functions\<close>

definition get_board_size :: "board \<Rightarrow> error + nat" where
  "get_board_size board =
     (if board = [] \<or> \<not> list_all (\<lambda>row. length row = length board) board
      then Inl ValueError
      else Inr (length board))"

definition get_empty_cells :: "board \<Rightarrow> error + (nat \<times> nat) list" where
  "get_empty_cells board =
     (case get_board_size board of
        Inl e \<Rightarrow> Inl e
      | Inr n \<Rightarrow> Inr [(row, col). row \<leftarrow> [0..<n], col \<leftarrow> [0..<n], board ! row ! col = 0])"

definition add_random_tile :: "board \<Rightarrow> draw \<Rightarrow> error + (board \<times> bool)" where
  "add_random_tile board d =
     (case get_empty_cells board of
        Inl e \<Rightarrow> Inl e
      | Inr empty_cells \<Rightarrow>
          if empty_cells = [] then Inr (map (\<lambda>row. row) board, False)
          else
            let new_board = map (\<lambda>row. row) board;
                (row, col) = empty_cells ! (pick d mod length empty_cells)
            in Inr (new_board[row := (new_board ! row)[col := (if below_tenth d then 4 else 2)]],
                    True))"

definition initialize_board ::
  "size_arg \<Rightarrow> draw \<Rightarrow> draw \<Rightarrow> error + (board \<times> int \<times> GameProgressState)" where
  "initialize_board sz d1 d2 =
     (case sz of
        NonInt \<Rightarrow> Inl ValueError
      | IntSize k \<Rightarrow>
          if k \<le> 0 then Inl ValueError
          else
            let current_board = replicate (nat k) (replicate (nat k) 0) in
            case add_random_tile current_board d1 of
              Inl e \<Rightarrow> Inl e
            | Inr (board1, _) \<Rightarrow>
                (case add_random_tile board1 d2 of
                   Inl e \<Rightarrow> Inl e
                 | Inr (board2, _) \<Rightarrow> Inr (board2, 0, IN_PROGRESS)))"

section \<open>Line manipulation\<close>

definition compress_line :: "int list \<Rightarrow> int list \<times> bool" where
  "compress_line line =
     (let n = length line;
          kept = filter (\<lambda>i. i \<noteq> 0) line;
          new_line_compressed = kept @ replicate (n - length kept) 0
      in (new_line_compressed, new_line_compressed \<noteq> line))"

text \<open>
  The \<open>while read_idx < n\<close> loop of \<open>_merge_line\<close>, with its four variables as
  arguments. A write to \<open>new_line_merged[write_idx]\<close> outside the list raises.
\<close>

function merge_loop ::
  "int list \<Rightarrow> nat \<Rightarrow> nat \<Rightarrow> int list \<Rightarrow> int \<Rightarrow> error + (int list \<times> int)" where
  "merge_loop line read_idx write_idx new_line_merged score_increase =
     (if read_idx < length line then
        (if line ! read_idx = 0 then
           merge_loop line (read_idx + 1) write_idx new_line_merged score_increase
         else if \<not> write_idx < length new_line_merged then Inl IndexError
         else if read_idx + 1 < length line \<and> line ! read_idx = line ! (read_idx + 1) then
           merge_loop line (read_idx + 2) (write_idx + 1)
             (new_line_merged[write_idx := line ! read_idx * 2])
             (score_increase + line ! read_idx * 2)
         else
           merge_loop line (read_idx + 1) (write_idx + 1)
             (new_line_merged[write_idx := line ! read_idx]) score_increase)
      else Inr (new_line_merged, score_increase))"
  by pat_completeness auto
termination
  by (relation "measure (\<lambda>(line, read_idx, _). length line - read_idx)") auto

declare merge_loop.simps [simp del]

definition merge_line :: "int list \<Rightarrow> error + (int list \<times> int \<times> bool)" where
  "merge_line line =
     (case merge_loop line 0 0 (replicate (length line) 0) 0 of
        Inl e \<Rightarrow> Inl e
      | Inr (new_line_merged, score_increase) \<Rightarrow>
          Inr (new_line_merged, score_increase, new_line_merged \<noteq> line))"

definition process_single_line_leftwise :: "int list \<Rightarrow> error + (int list \<times> int \<times> bool)" where
  "process_single_line_leftwise line =
     (let (compressed_line, _) = compress_line line in
      case merge_line compressed_line of
        Inl e \<Rightarrow> Inl e
      | Inr (merged_line, score_delta_from_merge, _) \<Rightarrow>
          let (final_processed_line, _) = compress_line merged_line
          in Inr (final_processed_line, score_delta_from_merge, final_processed_line \<noteq> line))"

section \<open>Board transformations\<close>

definition transpose_board :: "board \<Rightarrow> error + board" where
  "transpose_board board =
     (case get_board_size board of
        Inl e \<Rightarrow> Inl e
      | Inr n \<Rightarrow>
          Inr (fold (\<lambda>r new_board.
                 fold (\<lambda>c new_board. new_board[c := (new_board ! c)[r := board ! r ! c]])
                   [0..<n] new_board)
               [0..<n] (replicate n (replicate n 0))))"

definition reverse_rows :: "board \<Rightarrow> board" where
  "reverse_rows board = fold (\<lambda>row new_board. new_board @ [rev row]) board []"

section \<open>Move processing\<close>

definition apply_left_processing_to_all_lines :: "board \<Rightarrow> error + (board \<times> int \<times> bool)" where
  "apply_left_processing_to_all_lines current_board_state =
     (case get_board_size current_board_state of
        Inl e \<Rightarrow> Inl e
      | Inr n \<Rightarrow>
          fold (\<lambda>r_idx st.
                 case st of
                   Inl e \<Rightarrow> Inl e
                 | Inr (processed_board, total_score_increase, board_changed_overall) \<Rightarrow>
                     (case process_single_line_leftwise (processed_board ! r_idx) of
                        Inl e \<Rightarrow> Inl e
                      | Inr (final_line, score_from_line, line_changed) \<Rightarrow>
                          if line_changed
                          then Inr (processed_board[r_idx := final_line],
                                    total_score_increase + score_from_line, True)
                          else Inr (processed_board, total_score_increase,
                                    board_changed_overall)))
               [0..<n] (Inr (map (\<lambda>r. r) current_board_state, 0, False)))"

fun process_move :: "board \<Rightarrow> direction_arg \<Rightarrow> error + (board \<times> int \<times> bool)" where
  "process_move board (Dir LEFT) = apply_left_processing_to_all_lines board"
| "process_move board (Dir RIGHT) =
     (case apply_left_processing_to_all_lines (reverse_rows board) of
        Inl e \<Rightarrow> Inl e
      | Inr (processed_reversed_board, score_gained, move_changed_board) \<Rightarrow>
          if move_changed_board
          then Inr (reverse_rows processed_reversed_board, score_gained, move_changed_board)
          else Inr (board, score_gained, move_changed_board))"
| "process_move board (Dir UP) =
     (case transpose_board board of
        Inl e \<Rightarrow> Inl e
      | Inr temp_transposed_board \<Rightarrow>
          (case apply_left_processing_to_all_lines temp_transposed_board of
             Inl e \<Rightarrow> Inl e
           | Inr (processed_transposed_board, score_gained, move_changed_board) \<Rightarrow>
               if move_changed_board
               then (case transpose_board processed_transposed_board of
                       Inl e \<Rightarrow> Inl e
                     | Inr b \<Rightarrow> Inr (b, score_gained, move_changed_board))
               else Inr (board, score_gained, move_changed_board)))"
| "process_move board (Dir DOWN) =
     (case transpose_board board of
        Inl e \<Rightarrow> Inl e
      | Inr temp_transposed_board \<Rightarrow>
          (case apply_left_processing_to_all_lines (reverse_rows temp_transposed_board) of
             Inl e \<Rightarrow> Inl e
           | Inr (processed_board_intermediate, score_gained, move_changed_board) \<Rightarrow>
               if move_changed_board
               then (case transpose_board (reverse_rows processed_board_intermediate) of
                       Inl e \<Rightarrow> Inl e
                     | Inr b \<Rightarrow> Inr (b, score_gained, move_changed_board))
               else Inr (board, score_gained, move_changed_board)))"
| "process_move board NoDir = Inl ValueError"

section \<open>Game state checks\<close>

definition check_for_win :: "board \<Rightarrow> int \<Rightarrow> error + bool" where
  "check_for_win board win_tile =
     (case get_board_size board of
        Inl e \<Rightarrow> Inl e
      | Inr n \<Rightarrow>
          Inr (list_ex (\<lambda>r. list_ex (\<lambda>c. board ! r ! c = win_tile) [0..<n]) [0..<n]))"

text \<open>
  The test one non-empty cell \<open>(r_idx, c_idx)\<close> makes in the \<open>if\<close>/\<open>elif\<close> chain; a
  value outside the enumeration matches no branch.
\<close>

fun cell_can_move :: "board \<Rightarrow> nat \<Rightarrow> direction_arg \<Rightarrow> nat \<Rightarrow> nat \<Rightarrow> bool" where
  "cell_can_move board n (Dir UP) r_idx c_idx =
     (r_idx > 0 \<and> (board ! (r_idx - 1) ! c_idx = 0
                    \<or> board ! (r_idx - 1) ! c_idx = board ! r_idx ! c_idx))"
| "cell_can_move board n (Dir DOWN) r_idx c_idx =
     (int r_idx < int n - 1 \<and> (board ! (r_idx + 1) ! c_idx = 0
                    \<or> board ! (r_idx + 1) ! c_idx = board ! r_idx ! c_idx))"
| "cell_can_move board n (Dir LEFT) r_idx c_idx =
     (c_idx > 0 \<and> (board ! r_idx ! (c_idx - 1) = 0
                    \<or> board ! r_idx ! (c_idx - 1) = board ! r_idx ! c_idx))"
| "cell_can_move board n (Dir RIGHT) r_idx c_idx =
     (int c_idx < int n - 1 \<and> (board ! r_idx ! (c_idx + 1) = 0
                    \<or> board ! r_idx ! (c_idx + 1) = board ! r_idx ! c_idx))"
| "cell_can_move board n NoDir r_idx c_idx = False"

definition is_move_possible_in_direction :: "board \<Rightarrow> direction_arg \<Rightarrow> error + bool" where
  "is_move_possible_in_direction board direction =
     (case get_board_size board of
        Inl e \<Rightarrow> Inl e
      | Inr n \<Rightarrow>
          Inr (list_ex (\<lambda>r_idx.
                 list_ex (\<lambda>c_idx. board ! r_idx ! c_idx \<noteq> 0
                                  \<and> cell_can_move board n direction r_idx c_idx)
                   [0..<n])
               [0..<n]))"

text \<open>The loop \<open>for direction_enum_member in DIRECTION\<close> with its early return.\<close>

fun any_direction_loop :: "board \<Rightarrow> DIRECTION list \<Rightarrow> error + bool" where
  "any_direction_loop board [] = Inr False"
| "any_direction_loop board (d # ds) =
     (case is_move_possible_in_direction board (Dir d) of
        Inl e \<Rightarrow> Inl e
      | Inr possible \<Rightarrow> if possible then Inr True else any_direction_loop board ds)"

definition is_any_move_possible :: "board \<Rightarrow> error + bool" where
  "is_any_move_possible board = any_direction_loop board [UP, DOWN, LEFT, RIGHT]"

text \<open>
  \<open>not get_empty_cells(board)\<close> and \<open>is_any_move_possible(board)\<close> as fallible boolean
  expressions; \<open>and\<close> and \<open>or\<close> evaluate their right operand only when needed.
\<close>

definition no_empty_cells :: "board \<Rightarrow> error + bool" where
  "no_empty_cells board =
     (case get_empty_cells board of Inl e \<Rightarrow> Inl e | Inr cells \<Rightarrow> Inr (cells = []))"

definition no_move_possible :: "board \<Rightarrow> error + bool" where
  "no_move_possible board =
     (case is_any_move_possible board of Inl e \<Rightarrow> Inl e | Inr m \<Rightarrow> Inr (\<not> m))"

definition determine_game_status :: "board \<Rightarrow> int \<Rightarrow> error + GameProgressState" where
  "determine_game_status board win_tile =
     (case check_for_win board win_tile of
        Inl e \<Rightarrow> Inl e
      | Inr won \<Rightarrow>
          if won then Inr GAME_WON
          else
            (case (case no_empty_cells board of
                     Inl e \<Rightarrow> Inl e
                   | Inr full \<Rightarrow> if full then no_move_possible board else Inr False) of
               Inl e \<Rightarrow> Inl e
             | Inr lost1 \<Rightarrow>
                 if lost1 then Inr GAME_OVER
                 else
                   (case (case no_move_possible board of
                            Inl e \<Rightarrow> Inl e
                          | Inr stuck \<Rightarrow> if stuck then no_empty_cells board else Inr False) of
                      Inl e \<Rightarrow> Inl e
                    | Inr lost2 \<Rightarrow>
                        if lost2 then Inr GAME_OVER
                        else
                          (case (case is_any_move_possible board of
                                   Inl e \<Rightarrow> Inl e
                                 | Inr m \<Rightarrow>
                                     if m then Inr True
                                     else (case get_empty_cells board of
                                             Inl e \<Rightarrow> Inl e
                                           | Inr cells \<Rightarrow> Inr (cells \<noteq> []))) of
                             Inl e \<Rightarrow> Inl e
                           | Inr playable \<Rightarrow>
                               if playable then Inr IN_PROGRESS else Inr GAME_OVER))))"

section \<open>Well-formed boards\<close>

definition is_power_of_two :: "int \<Rightarrow> bool" where
  "is_power_of_two v = list_ex (\<lambda>k. v = 2 ^ k) [0..<nat v]"

definition well_formed :: "board \<Rightarrow> bool" where
  "well_formed board =
     (board \<noteq> [] \<and> list_all (\<lambda>row. length row = length board) board
      \<and> list_all (list_all (\<lambda>v. v = 0 \<or> is_power_of_two v)) board)"

section \<open>Functional reading of the loops\<close>

text \<open>
  Closed forms of the loops above and notions used to reason about them; each closed
  form is proved equal to the loop it describes before it is used.
\<close>

fun scan_tiles :: "int list \<Rightarrow> int list" where
  "scan_tiles [] = []"
| "scan_tiles [x] = (if x = 0 then [] else [x])"
| "scan_tiles (x # y # xs) =
     (if x = 0 then scan_tiles (y # xs)
      else if x = y then (x * 2) # scan_tiles xs
      else x # scan_tiles (y # xs))"

fun scan_score :: "int list \<Rightarrow> int" where
  "scan_score [] = 0"
| "scan_score [x] = 0"
| "scan_score (x # y # xs) =
     (if x = 0 then scan_score (y # xs)
      else if x = y then x * 2 + scan_score xs
      else scan_score (y # xs))"

definition slide :: "int list \<Rightarrow> int list" where
  "slide line =
     scan_tiles (filter (\<lambda>i. i \<noteq> 0) line)
       @ replicate (length line - length (scan_tiles (filter (\<lambda>i. i \<noteq> 0) line))) 0"

definition line_score :: "int list \<Rightarrow> int" where
  "line_score line = scan_score (filter (\<lambda>i. i \<noteq> 0) line)"

definition square :: "board \<Rightarrow> bool" where
  "square b = (b \<noteq> [] \<and> list_all (\<lambda>row. length row = length b) b)"

definition transposed :: "board \<Rightarrow> board" where
  "transposed b = map (\<lambda>c. map (\<lambda>r. b ! r ! c) [0..<length b]) [0..<length b]"

definition left_step ::
  "nat \<Rightarrow> error + (board \<times> int \<times> bool) \<Rightarrow> error + (board \<times> int \<times> bool)" where
  "left_step = (\<lambda>r_idx st.
                 case st of
                   Inl e \<Rightarrow> Inl e
                 | Inr (processed_board, total_score_increase, board_changed_overall) \<Rightarrow>
                     (case process_single_line_leftwise (processed_board ! r_idx) of
                        Inl e \<Rightarrow> Inl e
                      | Inr (final_line, score_from_line, line_changed) \<Rightarrow>
                          if line_changed
                          then Inr (processed_board[r_idx := final_line],
                                    total_score_increase + score_from_line, True)
                          else Inr (processed_board, total_score_increase,
                                    board_changed_overall)))"

definition board_score :: "board \<Rightarrow> int" where
  "board_score b = sum_list (map line_score b)"

definition board_moves :: "board \<Rightarrow> bool" where
  "board_moves b = list_ex (\<lambda>row. slide row \<noteq> row) b"

fun orient :: "DIRECTION \<Rightarrow> board \<Rightarrow> board" where
  "orient LEFT b = b"
| "orient RIGHT b = map rev b"
| "orient UP b = transposed b"
| "orient DOWN b = map rev (transposed b)"

fun unorient :: "DIRECTION \<Rightarrow> board \<Rightarrow> board" where
  "unorient LEFT b = b"
| "unorient RIGHT b = map rev b"
| "unorient UP b = transposed b"
| "unorient DOWN b = transposed (map rev b)"

text \<open>
  The move as the specification composes it, written from its words: Left is the slide
  itself, Right is \<open>reverseRows\<close> after the slide after \<open>reverseRows\<close>, Up is
  \<open>transpose\<close> after the slide after \<open>transpose\<close>, Down is \<open>transpose\<close> after
  \<open>reverseRows\<close> after the slide after \<open>reverseRows\<close> after \<open>transpose\<close>; the
  inverse transform is applied whether or not the slide changed anything.
\<close>

fun process_move_always_inverse ::
  "board \<Rightarrow> direction_arg \<Rightarrow> error + (board \<times> int \<times> bool)" where
  "process_move_always_inverse board (Dir LEFT) = apply_left_processing_to_all_lines board"
| "process_move_always_inverse board (Dir RIGHT) =
     (case apply_left_processing_to_all_lines (reverse_rows board) of
        Inl e \<Rightarrow> Inl e
      | Inr (slid, score_gained, changed) \<Rightarrow> Inr (reverse_rows slid, score_gained, changed))"
| "process_move_always_inverse board (Dir UP) =
     (case transpose_board board of
        Inl e \<Rightarrow> Inl e
      | Inr t \<Rightarrow>
          (case apply_left_processing_to_all_lines t of
             Inl e \<Rightarrow> Inl e
           | Inr (slid, score_gained, changed) \<Rightarrow>
               (case transpose_board slid of
                  Inl e \<Rightarrow> Inl e
                | Inr b \<Rightarrow> Inr (b, score_gained, changed))))"
| "process_move_always_inverse board (Dir DOWN) =
     (case transpose_board board of
        Inl e \<Rightarrow> Inl e
      | Inr t \<Rightarrow>
          (case apply_left_processing_to_all_lines (reverse_rows t) of
             Inl e \<Rightarrow> Inl e
           | Inr (slid, score_gained, changed) \<Rightarrow>
               (case transpose_board (reverse_rows slid) of
                  Inl e \<Rightarrow> Inl e
                | Inr b \<Rightarrow> Inr (b, score_gained, changed))))"
| "process_move_always_inverse board NoDir = Inl ValueError"

definition movable :: "int list \<Rightarrow> bool" where
  "movable xs =
     list_ex (\<lambda>c. xs ! c \<noteq> 0 \<and> c > 0 \<and> (xs ! (c - 1) = 0 \<or> xs ! (c - 1) = xs ! c))
       [0..<length xs]"

definition settled :: "int list \<Rightarrow> bool" where
  "settled xs = (\<exists>ys k. xs = ys @ replicate k 0 \<and> 0 \<notin> set ys \<and> distinct_adj ys)"

definition some_row_movable :: "board \<Rightarrow> bool" where
  "some_row_movable b = list_ex (\<lambda>d. list_ex movable (orient d b)) [UP, DOWN, LEFT, RIGHT]"

definition zero_board :: "nat \<Rightarrow> board" where
  "zero_board n = replicate n (replicate n 0)"

definition tile_value :: "draw \<Rightarrow> int" where
  "tile_value d = (if below_tenth d then 4 else 2)"

definition count_nonzero :: "board \<Rightarrow> nat" where
  "count_nonzero b = length (filter (\<lambda>v. v \<noteq> 0) (concat b))"

definition tile_ok :: "int \<Rightarrow> bool" where
  "tile_ok v = (v = 0 \<or> is_power_of_two v)"

definition cells_ok :: "board \<Rightarrow> bool" where
  "cells_ok b = list_all (list_all tile_ok) b"

definition positive_int :: "size_arg \<Rightarrow> bool" where
  "positive_int sz = (case sz of IntSize k \<Rightarrow> 0 < k | NonInt \<Rightarrow> False)"

fun merged_values :: "int list \<Rightarrow> int list" where
  "merged_values [] = []"
| "merged_values [x] = []"
| "merged_values (x # y # xs) =
     (if x = 0 then merged_values (y # xs)
      else if x = y then x # merged_values xs
      else merged_values (y # xs))"

fun kept_values :: "int list \<Rightarrow> int list" where
  "kept_values [] = []"
| "kept_values [x] = (if x = 0 then [] else [x])"
| "kept_values (x # y # xs) =
     (if x = 0 then kept_values (y # xs)
      else if x = y then kept_values xs
      else x # kept_values (y # xs))"

definition board_merged :: "board \<Rightarrow> int list" where
  "board_merged b = concat (map (\<lambda>row. merged_values (filter (\<lambda>i. i \<noteq> 0) row)) b)"

definition board_kept :: "board \<Rightarrow> int list" where
  "board_kept b = concat (map (\<lambda>row. kept_values (filter (\<lambda>i. i \<noteq> 0) row)) b)"

section \<open>The loops compute their closed forms\<close>

lemma length_scan_tiles: "length (scan_tiles xs) \<le> length xs"
  by (induction xs rule: scan_tiles.induct) auto

lemma merge_loop_scan:
  "write_idx \<le> read_idx \<Longrightarrow> length acc = length line \<Longrightarrow>
   merge_loop line read_idx write_idx acc s =
     Inr (take write_idx acc @ scan_tiles (drop read_idx line)
            @ drop (write_idx + length (scan_tiles (drop read_idx line))) acc,
          s + scan_score (drop read_idx line))"
proof (induction line read_idx write_idx acc s rule: merge_loop.induct)
  case (1 line r w acc s)
  show ?case
  proof (cases "r < length line")
    case False
    then show ?thesis using 1(4,5) by (simp add: merge_loop.simps[of line r])
  next
    case inb: True
    then have d: "drop r line = line ! r # drop (Suc r) line"
      by (simp add: Cons_nth_drop_Suc)
    show ?thesis
    proof (cases "line ! r = 0")
      case True
      have "drop r line = 0 # drop (Suc r) line" using d True by simp
      moreover have "scan_tiles (0 # ys) = scan_tiles ys" and "scan_score (0 # ys) = scan_score ys" for ys
        by (cases ys; simp)+
      ultimately show ?thesis
        using 1(1)[OF inb True] 1(4,5) inb True
        by (simp add: merge_loop.simps[of line r])
    next
      case nz: False
      have w: "w < length acc" using 1(4,5) inb by simp
      show ?thesis
      proof (cases "r + 1 < length line \<and> line ! r = line ! (r + 1)")
        case True
        then have d2: "drop r line = line ! r # line ! r # drop (r + 2) line"
          using d by (simp add: Cons_nth_drop_Suc)
        have ih: "merge_loop line (r + 2) (w + 1) (acc[w := line ! r * 2]) (s + line ! r * 2) =
           Inr (take (w + 1) (acc[w := line ! r * 2]) @ scan_tiles (drop (r + 2) line)
            @ drop (w + 1 + length (scan_tiles (drop (r + 2) line))) (acc[w := line ! r * 2]),
          s + line ! r * 2 + scan_score (drop (r + 2) line))"
          using 1(2)[OF inb nz _ True] w 1(4,5) by simp
        have t: "take (Suc w) (acc[w := v]) = take w acc @ [v]" for v
          using w by (simp add: take_Suc_conv_app_nth)
        have step: "merge_loop line r w acc s =
            merge_loop line (r + 2) (w + 1) (acc[w := line ! r * 2]) (s + line ! r * 2)"
          using inb nz w True by (subst merge_loop.simps) auto
        show ?thesis
          unfolding step ih using nz by (simp add: d2 t)
      next
        case False
        have st: "scan_tiles (drop r line) = line ! r # scan_tiles (drop (Suc r) line)"
          and sc: "scan_score (drop r line) = scan_score (drop (Suc r) line)"
        proof -
          show "scan_tiles (drop r line) = line ! r # scan_tiles (drop (Suc r) line)"
          proof (cases "drop (Suc r) line")
            case Nil
            then show ?thesis using d nz by simp
          next
            case (Cons y ys)
            then have "Suc r < length line" by (metis drop_eq_Nil list.distinct(1) not_le)
            then have "y = line ! (Suc r)" using Cons by (metis Cons_nth_drop_Suc list.inject)
            then show ?thesis using d nz False Cons \<open>Suc r < length line\<close> by simp
          qed
          show "scan_score (drop r line) = scan_score (drop (Suc r) line)"
          proof (cases "drop (Suc r) line")
            case Nil
            then show ?thesis using d nz by simp
          next
            case (Cons y ys)
            then have "Suc r < length line" by (metis drop_eq_Nil list.distinct(1) not_le)
            then have "y = line ! (Suc r)" using Cons by (metis Cons_nth_drop_Suc list.inject)
            then show ?thesis using d nz False Cons \<open>Suc r < length line\<close> by simp
          qed
        qed
        have ih: "merge_loop line (r + 1) (w + 1) (acc[w := line ! r]) s =
           Inr (take (w + 1) (acc[w := line ! r]) @ scan_tiles (drop (r + 1) line)
            @ drop (w + 1 + length (scan_tiles (drop (r + 1) line))) (acc[w := line ! r]),
          s + scan_score (drop (r + 1) line))"
          using 1(3)[OF inb nz _ False] w 1(4,5) by simp
        have t: "take (Suc w) (acc[w := v]) = take w acc @ [v]" for v
          using w by (simp add: take_Suc_conv_app_nth)
        have step: "merge_loop line r w acc s = merge_loop line (r + 1) (w + 1) (acc[w := line ! r]) s"
          using inb nz w False by (subst merge_loop.simps) auto
        show ?thesis
          unfolding step ih by (simp add: st sc t)
      qed
    qed
  qed
qed

lemma scan_tiles_nonzero: "0 \<notin> set (scan_tiles xs)"
  by (induction xs rule: scan_tiles.induct) auto

lemma scan_tiles_zero_Cons [simp]: "scan_tiles (0 # ys) = scan_tiles ys"
  by (cases ys) simp_all

lemma scan_score_zero_Cons [simp]: "scan_score (0 # ys) = scan_score ys"
  by (cases ys) simp_all

lemma scan_tiles_replicate [simp]: "scan_tiles (replicate k 0) = []"
  by (induction k) simp_all

lemma scan_score_replicate [simp]: "scan_score (replicate k 0) = 0"
  by (induction k) simp_all

lemma scan_tiles_zeros: "scan_tiles (xs @ replicate k 0) = scan_tiles xs"
proof (induction xs rule: scan_tiles.induct)
  case (2 x)
  then show ?case by (cases k) auto
qed auto

lemma scan_score_zeros: "scan_score (xs @ replicate k 0) = scan_score xs"
proof (induction xs rule: scan_score.induct)
  case (2 x)
  then show ?case by (cases k) auto
qed auto

lemma merge_line_eq:
  "merge_line line =
     Inr (scan_tiles line @ replicate (length line - length (scan_tiles line)) 0,
          scan_score line,
          scan_tiles line @ replicate (length line - length (scan_tiles line)) 0 \<noteq> line)"
  using merge_loop_scan[of 0 0 "replicate (length line) 0" line 0]
  by (simp add: merge_line_def)

lemma filter_nonzero_pad:
  "0 \<notin> set ys \<Longrightarrow> filter (\<lambda>i. i \<noteq> (0::int)) (ys @ replicate k 0) = ys"
  by (induction ys) auto

lemma process_single_line_leftwise_eq:
  "process_single_line_leftwise line = Inr (slide line, line_score line, slide line \<noteq> line)"
proof -
  let ?c = "filter (\<lambda>i. i \<noteq> 0) line @ replicate (length line - length (filter (\<lambda>i. i \<noteq> 0) line)) 0"
  let ?t = "scan_tiles (filter (\<lambda>i. i \<noteq> 0) line)"
  have lc: "length ?c = length line" by simp
  have t: "scan_tiles ?c = ?t" by (rule scan_tiles_zeros)
  have s: "scan_score ?c = line_score line" unfolding line_score_def by (rule scan_score_zeros)
  have f: "filter (\<lambda>i. i \<noteq> 0) (?t @ replicate k 0) = ?t" for k
    by (rule filter_nonzero_pad) (rule scan_tiles_nonzero)
  have lt: "length ?t \<le> length line"
    using length_scan_tiles[of "filter (\<lambda>i. i \<noteq> 0) line"] length_filter_le[of "\<lambda>i. i \<noteq> 0" line]
    by linarith
  show ?thesis
    unfolding process_single_line_leftwise_def compress_line_def Let_def split_conv merge_line_eq
      sum.case t s lc f
    using lt by (simp add: slide_def)
qed

lemma get_board_size_eq:
  "get_board_size b = (if square b then Inr (length b) else Inl ValueError)"
  by (simp add: get_board_size_def square_def)

lemma square_nth: "square b \<Longrightarrow> r < length b \<Longrightarrow> length (b ! r) = length b"
  by (simp add: square_def list_all_length)

lemma reverse_rows_fold: "fold (\<lambda>row new_board. new_board @ [rev row]) b acc = acc @ map rev b"
  by (induction b arbitrary: acc) simp_all

lemma reverse_rows_eq: "reverse_rows b = map rev b"
  by (simp add: reverse_rows_def reverse_rows_fold)

lemma transpose_inner:
  assumes "m \<le> length nb"
  shows "length (fold (\<lambda>c new_board. new_board[c := (new_board ! c)[r := f c]]) [0..<m] nb) = length nb
       \<and> (\<forall>c < length nb.
            fold (\<lambda>c new_board. new_board[c := (new_board ! c)[r := f c]]) [0..<m] nb ! c
              = (if c < m then (nb ! c)[r := f c] else nb ! c))"
  using assms
proof (induction m)
  case 0
  then show ?case by simp
next
  case (Suc m)
  then show ?case by (auto simp: nth_list_update)
qed

lemma transpose_outer:
  assumes "m \<le> n"
  shows "length (fold (\<lambda>r new_board.
                 fold (\<lambda>c new_board. new_board[c := (new_board ! c)[r := b ! r ! c]])
                   [0..<n] new_board)
               [0..<m] (replicate n (replicate n 0))) = n
       \<and> (\<forall>c < n.
           fold (\<lambda>r new_board.
                 fold (\<lambda>c new_board. new_board[c := (new_board ! c)[r := b ! r ! c]])
                   [0..<n] new_board)
               [0..<m] (replicate n (replicate n 0)) ! c
            = map (\<lambda>r. if r < m then b ! r ! c else 0) [0..<n])"
  using assms
proof (induction m)
  case 0
  then show ?case by (auto intro: nth_equalityI)
next
  case (Suc m)
  let ?prev = "fold (\<lambda>r new_board.
                 fold (\<lambda>c new_board. new_board[c := (new_board ! c)[r := b ! r ! c]])
                   [0..<n] new_board)
               [0..<m] (replicate n (replicate n 0))"
  have ih: "length ?prev = n"
    "\<forall>c < n. ?prev ! c = map (\<lambda>r. if r < m then b ! r ! c else 0) [0..<n]"
    using Suc by auto
  have inner: "length (fold (\<lambda>c new_board. new_board[c := (new_board ! c)[m := b ! m ! c]]) [0..<n] ?prev) = n
       \<and> (\<forall>c < n.
            fold (\<lambda>c new_board. new_board[c := (new_board ! c)[m := b ! m ! c]]) [0..<n] ?prev ! c
              = (?prev ! c)[m := b ! m ! c])"
    using transpose_inner[of n ?prev m "\<lambda>c. b ! m ! c"] ih(1) by simp
  have upd: "(map (\<lambda>r. if r < m then b ! r ! c else 0) [0..<n])[m := b ! m ! c]
             = map (\<lambda>r. if r < Suc m then b ! r ! c else 0) [0..<n]" for c
    using Suc.prems by (auto intro!: nth_equalityI simp: nth_list_update less_Suc_eq)
  show ?case
    using inner ih(2) upd by simp
qed

lemma transpose_board_eq:
  "transpose_board b = (if square b then Inr (transposed b) else Inl ValueError)"
proof (cases "square b")
  case False
  then show ?thesis by (simp add: transpose_board_def get_board_size_eq)
next
  case True
  have "fold (\<lambda>r new_board.
                 fold (\<lambda>c new_board. new_board[c := (new_board ! c)[r := b ! r ! c]])
                   [0..<length b] new_board)
               [0..<length b] (replicate (length b) (replicate (length b) 0)) = transposed b"
    using transpose_outer[of "length b" "length b" b]
    by (auto intro!: nth_equalityI simp: transposed_def)
  then show ?thesis using True by (simp add: transpose_board_def get_board_size_eq)
qed

lemma length_transposed [simp]: "length (transposed b) = length b"
  by (simp add: transposed_def)

lemma transposed_nth: "c < length b \<Longrightarrow> transposed b ! c = map (\<lambda>r. b ! r ! c) [0..<length b]"
  by (simp add: transposed_def)

lemma square_transposed: "b \<noteq> [] \<Longrightarrow> square (transposed b)"
  by (simp add: square_def transposed_def list_all_length)

lemma transposed_transposed: "square b \<Longrightarrow> transposed (transposed b) = b"
  by (auto intro!: nth_equalityI simp: transposed_def square_nth)

lemma length_slide [simp]: "length (slide xs) = length xs"
proof -
  have "length (scan_tiles (filter (\<lambda>i. i \<noteq> 0) xs)) \<le> length xs"
    using length_scan_tiles[of "filter (\<lambda>i. i \<noteq> 0) xs"] length_filter_le[of "\<lambda>i. i \<noteq> 0" xs]
    by linarith
  then show ?thesis by (simp add: slide_def)
qed

lemma scan_score_length:
  "length (scan_tiles ys) = length ys \<Longrightarrow> scan_score ys = 0"
proof (induction ys rule: scan_tiles.induct)
  case (3 x y xs)
  have l1: "length (scan_tiles (y # xs)) \<le> Suc (length xs)"
    using length_scan_tiles[of "y # xs"] by simp
  have l2: "length (scan_tiles xs) \<le> length xs" by (rule length_scan_tiles)
  show ?case using 3 l1 l2 by (auto split: if_splits)
qed auto

lemma filter_slide: "filter (\<lambda>i. i \<noteq> 0) (slide xs) = scan_tiles (filter (\<lambda>i. i \<noteq> 0) xs)"
  unfolding slide_def by (rule filter_nonzero_pad) (rule scan_tiles_nonzero)

lemma slide_fixed_score: "slide xs = xs \<Longrightarrow> line_score xs = 0"
proof -
  assume "slide xs = xs"
  then have "scan_tiles (filter (\<lambda>i. i \<noteq> 0) xs) = filter (\<lambda>i. i \<noteq> 0) xs"
    using filter_slide[of xs] by simp
  then show ?thesis unfolding line_score_def by (simp add: scan_score_length)
qed

lemma left_fold:
  "m \<le> length b \<Longrightarrow>
   fold left_step [0..<m] (Inr (b, 0, False)) =
     Inr (map slide (take m b) @ drop m b, sum_list (map line_score (take m b)),
          list_ex (\<lambda>row. slide row \<noteq> row) (take m b))"
proof (induction m)
  case 0
  then show ?case by simp
next
  case (Suc m)
  then have m: "m < length b" by simp
  have cur: "(map slide (take m b) @ drop m b) ! m = b ! m"
    using m by (simp add: nth_append)
  have t: "take (Suc m) b = take m b @ [b ! m]"
    using m by (simp add: take_Suc_conv_app_nth)
  have d: "drop m b = b ! m # drop (Suc m) b"
    using m by (simp add: Cons_nth_drop_Suc)
  have u: "(map slide (take m b) @ drop m b)[m := v] = map slide (take m b) @ v # drop (Suc m) b" for v
    using m by (simp add: list_update_append d)
  let ?P = "map slide (take m b) @ drop m b"
  let ?S = "sum_list (map line_score (take m b))"
  let ?C = "list_ex (\<lambda>row. slide row \<noteq> row) (take m b)"
  have "fold left_step [0..<Suc m] (Inr (b, 0, False)) = left_step m (Inr (?P, ?S, ?C))"
    using Suc by simp
  also have "\<dots> = (if slide (b ! m) \<noteq> b ! m
                    then Inr (?P[m := slide (b ! m)], ?S + line_score (b ! m), True)
                    else Inr (?P, ?S, ?C))"
    by (simp add: left_step_def cur process_single_line_leftwise_eq)
  also have "\<dots> = Inr (map slide (take (Suc m) b) @ drop (Suc m) b,
                       sum_list (map line_score (take (Suc m) b)),
                       list_ex (\<lambda>row. slide row \<noteq> row) (take (Suc m) b))"
  proof (cases "slide (b ! m) = b ! m")
    case True
    then show ?thesis by (simp add: t slide_fixed_score d)
  next
    case False
    then show ?thesis by (simp add: t u)
  qed
  finally show ?case .
qed

lemma apply_left_eq:
  "apply_left_processing_to_all_lines b =
     (if square b then Inr (map slide b, board_score b, board_moves b) else Inl ValueError)"
  using left_fold[of "length b" b]
  by (simp add: apply_left_processing_to_all_lines_def get_board_size_eq left_step_def
        board_score_def board_moves_def)

lemma not_moves_fixed: "\<not> board_moves b \<Longrightarrow> map slide b = b"
  by (simp add: board_moves_def list_ex_iff map_idI)

lemma square_nonempty: "square b \<Longrightarrow> b \<noteq> []"
  by (simp add: square_def)

lemma square_map_rev_iff [simp]: "square (map rev b) = square b"
  by (simp add: square_def list_all_length)

lemma square_map_slide_iff [simp]: "square (map slide b) = square b"
  by (simp add: square_def list_all_length)

lemma square_orient: "square b \<Longrightarrow> square (orient d b)"
  by (cases d) (simp_all add: square_transposed square_nonempty)

lemma map_rev_rev: "map rev (map rev b) = (b :: board)"
  by (simp add: map_idI)

lemma unorient_orient: "square b \<Longrightarrow> unorient d (orient d b) = b"
  by (cases d) (simp_all add: transposed_transposed map_rev_rev)

lemma process_move_always_inverse_eq:
  "process_move_always_inverse b (Dir d) =
     (if square b
      then Inr (unorient d (map slide (orient d b)), board_score (orient d b),
                board_moves (orient d b))
      else Inl ValueError)"
  by (cases d)
     (simp_all add: apply_left_eq transpose_board_eq reverse_rows_eq square_transposed
        square_nonempty del: map_map)

lemma process_move_eq:
  "process_move b (Dir d) =
     (if square b
      then Inr (unorient d (map slide (orient d b)), board_score (orient d b),
                board_moves (orient d b))
      else Inl ValueError)"
proof (cases "square b")
  case False
  then show ?thesis
    by (cases d) (simp_all add: apply_left_eq transpose_board_eq reverse_rows_eq)
next
  case True
  have fixed: "\<not> board_moves (orient d b) \<Longrightarrow> unorient d (map slide (orient d b)) = b"
    using True by (simp add: not_moves_fixed unorient_orient)
  show ?thesis
    using True fixed
    by (cases d)
       (auto simp add: apply_left_eq transpose_board_eq reverse_rows_eq square_transposed
          square_nonempty simp del: map_map)
qed

lemma movable_iff:
  "movable xs \<longleftrightarrow>
     (\<exists>c. Suc c < length xs \<and> xs ! Suc c \<noteq> 0 \<and> (xs ! c = 0 \<or> xs ! c = xs ! Suc c))"
proof
  assume "movable xs"
  then obtain c where c: "c < length xs" "xs ! c \<noteq> 0" "c > 0"
      "xs ! (c - 1) = 0 \<or> xs ! (c - 1) = xs ! c"
    by (auto simp: movable_def list_ex_iff)
  then obtain k where "c = Suc k" by (cases c) auto
  with c show "\<exists>c. Suc c < length xs \<and> xs ! Suc c \<noteq> 0 \<and> (xs ! c = 0 \<or> xs ! c = xs ! Suc c)"
    by auto
next
  assume "\<exists>c. Suc c < length xs \<and> xs ! Suc c \<noteq> 0 \<and> (xs ! c = 0 \<or> xs ! c = xs ! Suc c)"
  then obtain c where "Suc c < length xs" "xs ! Suc c \<noteq> 0" "xs ! c = 0 \<or> xs ! c = xs ! Suc c"
    by blast
  then show "movable xs"
    unfolding movable_def list_ex_iff by (intro bexI[of _ "Suc c"]) auto
qed

lemma movable_rev_iff:
  "movable (rev xs) \<longleftrightarrow>
     (\<exists>c. Suc c < length xs \<and> xs ! c \<noteq> 0 \<and> (xs ! Suc c = 0 \<or> xs ! Suc c = xs ! c))"
proof
  assume "movable (rev xs)"
  then obtain k where k: "Suc k < length xs" "rev xs ! Suc k \<noteq> 0"
      "rev xs ! k = 0 \<or> rev xs ! k = rev xs ! Suc k"
    by (auto simp: movable_iff)
  let ?c = "length xs - Suc (Suc k)"
  have 1: "rev xs ! Suc k = xs ! ?c" using k(1) by (simp add: rev_nth)
  have 2: "rev xs ! k = xs ! Suc ?c" using k(1) by (simp add: rev_nth Suc_diff_Suc)
  have "Suc ?c < length xs" using k(1) by simp
  with k 1 2 show "\<exists>c. Suc c < length xs \<and> xs ! c \<noteq> 0 \<and> (xs ! Suc c = 0 \<or> xs ! Suc c = xs ! c)"
    by (intro exI[of _ ?c]) auto
next
  assume "\<exists>c. Suc c < length xs \<and> xs ! c \<noteq> 0 \<and> (xs ! Suc c = 0 \<or> xs ! Suc c = xs ! c)"
  then obtain c where c: "Suc c < length xs" "xs ! c \<noteq> 0" "xs ! Suc c = 0 \<or> xs ! Suc c = xs ! c"
    by blast
  let ?k = "length xs - Suc (Suc c)"
  have 1: "rev xs ! Suc ?k = xs ! c" using c(1) by (simp add: rev_nth Suc_diff_Suc)
  have 2: "rev xs ! ?k = xs ! Suc c" using c(1) by (simp add: rev_nth Suc_diff_Suc)
  have "Suc ?k < length xs" using c(1) by simp
  with c 1 2 show "movable (rev xs)"
    unfolding movable_iff by (intro exI[of _ ?k]) auto
qed

lemma list_ex_rows:
  "list_ex P b \<longleftrightarrow> (\<exists>r < length b. P (b ! r))"
  unfolding list_ex_iff by (metis in_set_conv_nth)

lemma list_ex_map_rows:
  "list_ex P (map f b) \<longleftrightarrow> (\<exists>r < length b. P (f (b ! r)))"
  by (auto simp: list_ex_rows)

lemma list_ex_upt: "list_ex P [0..<n] \<longleftrightarrow> (\<exists>i<n. P i)"
  by (auto simp: list_ex_iff)

lemma int_less_pred: "int c < int n - 1 \<longleftrightarrow> Suc c < n"
  by linarith

lemma possible_left:
  assumes "square b"
  shows "is_move_possible_in_direction b (Dir LEFT) = Inr (list_ex movable b)"
proof -
  have "(\<exists>r<length b. \<exists>c<length b. b ! r ! c \<noteq> 0 \<and> cell_can_move b (length b) (Dir LEFT) r c)
        \<longleftrightarrow> (\<exists>r<length b. movable (b ! r))"
  proof (intro ex_cong1 conj_cong refl)
    fix r assume r: "r < length b"
    then have l: "length (b ! r) = length b" using assms by (rule square_nth[rotated])
    show "(\<exists>c<length b. b ! r ! c \<noteq> 0 \<and> cell_can_move b (length b) (Dir LEFT) r c) \<longleftrightarrow> movable (b ! r)"
      unfolding movable_def list_ex_iff l by auto
  qed
  then show ?thesis
    using assms
    by (simp add: is_move_possible_in_direction_def get_board_size_eq list_ex_upt
          list_ex_rows[of movable])
qed

lemma possible_right:
  assumes "square b"
  shows "is_move_possible_in_direction b (Dir RIGHT) = Inr (list_ex movable (map rev b))"
proof -
  have "(\<exists>r<length b. \<exists>c<length b. b ! r ! c \<noteq> 0 \<and> cell_can_move b (length b) (Dir RIGHT) r c)
        \<longleftrightarrow> (\<exists>r<length b. movable (rev (b ! r)))"
  proof (intro ex_cong1 conj_cong refl)
    fix r assume r: "r < length b"
    then have l: "length (b ! r) = length b" using assms by (rule square_nth[rotated])
    have "(\<exists>c<length b. b ! r ! c \<noteq> 0 \<and> cell_can_move b (length b) (Dir RIGHT) r c)
       \<longleftrightarrow> (\<exists>c. Suc c < length b \<and> b ! r ! c \<noteq> 0 \<and> (b ! r ! Suc c = 0 \<or> b ! r ! Suc c = b ! r ! c))"
      by (simp add: int_less_pred) (use Suc_lessD in blast)
    then show "(\<exists>c<length b. b ! r ! c \<noteq> 0 \<and> cell_can_move b (length b) (Dir RIGHT) r c)
         \<longleftrightarrow> movable (rev (b ! r))"
      unfolding movable_rev_iff l by simp
  qed
  then show ?thesis
    using assms
    by (simp add: is_move_possible_in_direction_def get_board_size_eq list_ex_upt
          list_ex_map_rows[of movable])
qed

lemma possible_up:
  assumes "square b"
  shows "is_move_possible_in_direction b (Dir UP) = Inr (list_ex movable (transposed b))"
proof -
  have col: "c < length b \<Longrightarrow> r < length b \<Longrightarrow> transposed b ! c ! r = b ! r ! c" for r c
    by (simp add: transposed_nth)
  have lc: "c < length b \<Longrightarrow> length (transposed b ! c) = length b" for c
    by (simp add: transposed_nth)
  have "(\<exists>r<length b. \<exists>c<length b. b ! r ! c \<noteq> 0 \<and> cell_can_move b (length b) (Dir UP) r c)
        \<longleftrightarrow> (\<exists>c<length b. \<exists>r<length b. b ! r ! c \<noteq> 0 \<and> cell_can_move b (length b) (Dir UP) r c)"
    by blast
  also have "\<dots> \<longleftrightarrow> (\<exists>c<length b. movable (transposed b ! c))"
  proof (intro ex_cong1 conj_cong refl)
    fix c assume c: "c < length b"
    show "(\<exists>r<length b. b ! r ! c \<noteq> 0 \<and> cell_can_move b (length b) (Dir UP) r c)
          \<longleftrightarrow> movable (transposed b ! c)"
      unfolding movable_def list_ex_iff lc[OF c] using c by (auto simp: col)
  qed
  finally show ?thesis
    using assms
    by (simp add: is_move_possible_in_direction_def get_board_size_eq list_ex_upt
          list_ex_rows[of movable])
qed

lemma possible_down:
  assumes "square b"
  shows "is_move_possible_in_direction b (Dir DOWN) = Inr (list_ex movable (map rev (transposed b)))"
proof -
  have col: "c < length b \<Longrightarrow> r < length b \<Longrightarrow> transposed b ! c ! r = b ! r ! c" for r c
    by (simp add: transposed_nth)
  have lc: "c < length b \<Longrightarrow> length (transposed b ! c) = length b" for c
    by (simp add: transposed_nth)
  have "(\<exists>r<length b. \<exists>c<length b. b ! r ! c \<noteq> 0 \<and> cell_can_move b (length b) (Dir DOWN) r c)
        \<longleftrightarrow> (\<exists>c<length b. \<exists>r<length b. b ! r ! c \<noteq> 0 \<and> cell_can_move b (length b) (Dir DOWN) r c)"
    by blast
  also have "\<dots> \<longleftrightarrow> (\<exists>c<length b. movable (rev (transposed b ! c)))"
  proof (intro ex_cong1 conj_cong refl)
    fix c assume c: "c < length b"
    have "(\<exists>r<length b. b ! r ! c \<noteq> 0 \<and> cell_can_move b (length b) (Dir DOWN) r c)
       \<longleftrightarrow> (\<exists>r. Suc r < length b \<and> b ! r ! c \<noteq> 0 \<and> (b ! Suc r ! c = 0 \<or> b ! Suc r ! c = b ! r ! c))"
      by (simp add: int_less_pred) (use Suc_lessD in blast)
    also have "\<dots> \<longleftrightarrow> (\<exists>r. Suc r < length b \<and> transposed b ! c ! r \<noteq> 0
         \<and> (transposed b ! c ! Suc r = 0 \<or> transposed b ! c ! Suc r = transposed b ! c ! r))"
      using c by (intro ex_cong1) (auto simp: col)
    finally show "(\<exists>r<length b. b ! r ! c \<noteq> 0 \<and> cell_can_move b (length b) (Dir DOWN) r c)
          \<longleftrightarrow> movable (rev (transposed b ! c))"
      unfolding movable_rev_iff lc[OF c] .
  qed
  finally show ?thesis
    using assms
    by (simp add: is_move_possible_in_direction_def get_board_size_eq list_ex_upt
          list_ex_map_rows[of movable])
qed

lemma is_move_possible_eq:
  "is_move_possible_in_direction b (Dir d) =
     (if square b then Inr (list_ex movable (orient d b)) else Inl ValueError)"
proof (cases "square b")
  case True
  then show ?thesis
    by (cases d) (simp_all add: possible_left possible_right possible_up possible_down)
next
  case False
  then show ?thesis by (simp add: is_move_possible_in_direction_def get_board_size_eq)
qed

lemma movable_Nil [simp]: "\<not> movable []"
  by (simp add: movable_iff)

lemma movable_single [simp]: "\<not> movable [x]"
  by (simp add: movable_iff)

lemma movable_Cons2:
  "movable (x # y # ys) \<longleftrightarrow> (y \<noteq> 0 \<and> (x = 0 \<or> x = y)) \<or> movable (y # ys)"
proof -
  have "movable (x # y # ys) \<longleftrightarrow>
     (\<exists>c. Suc c < length (x # y # ys) \<and> (x # y # ys) ! Suc c \<noteq> 0
          \<and> ((x # y # ys) ! c = 0 \<or> (x # y # ys) ! c = (x # y # ys) ! Suc c))"
    by (rule movable_iff)
  also have "\<dots> \<longleftrightarrow> (y \<noteq> 0 \<and> (x = 0 \<or> x = y))
       \<or> (\<exists>c. Suc c < length (y # ys) \<and> (y # ys) ! Suc c \<noteq> 0
          \<and> ((y # ys) ! c = 0 \<or> (y # ys) ! c = (y # ys) ! Suc c))"
    (is "(\<exists>c. ?P c) \<longleftrightarrow> ?A \<or> (\<exists>c. ?Q c)")
  proof
    assume "\<exists>c. ?P c"
    then obtain c where c: "?P c" by blast
    show "?A \<or> (\<exists>c. ?Q c)"
    proof (cases c)
      case 0
      with c show ?thesis by simp
    next
      case (Suc k)
      with c have "?Q k" by simp
      then show ?thesis by blast
    qed
  next
    assume "?A \<or> (\<exists>c. ?Q c)"
    then show "\<exists>c. ?P c"
    proof
      assume ?A
      then have "?P 0" by simp
      then show ?thesis by blast
    next
      assume "\<exists>c. ?Q c"
      then obtain k where "?Q k" by blast
      then have "?P (Suc k)" by simp
      then show ?thesis by blast
    qed
  qed
  also have "\<dots> \<longleftrightarrow> (y \<noteq> 0 \<and> (x = 0 \<or> x = y)) \<or> movable (y # ys)"
    by (simp only: movable_iff[of "y # ys"])
  finally show ?thesis .
qed

lemma settled_not_movable:
  assumes "settled xs"
  shows "\<not> movable xs"
proof
  assume "movable xs"
  from assms obtain ys k where xs: "xs = ys @ replicate k 0" and nz: "0 \<notin> set ys"
    and da: "distinct_adj ys"
    unfolding settled_def by blast
  from \<open>movable xs\<close> obtain c where c: "Suc c < length xs" "xs ! Suc c \<noteq> 0"
      "xs ! c = 0 \<or> xs ! c = xs ! Suc c"
    unfolding movable_iff by blast
  have in_ys: "Suc c < length ys"
  proof (rule ccontr)
    assume "\<not> Suc c < length ys"
    then have "xs ! Suc c = 0" using c(1) xs by (simp add: nth_append)
    with c(2) show False by simp
  qed
  then have 1: "xs ! Suc c = ys ! Suc c" and 2: "xs ! c = ys ! c"
    using xs by (simp_all add: nth_append)
  have "ys ! c \<noteq> 0" using nz in_ys by (metis Suc_lessD nth_mem)
  moreover have "ys ! c \<noteq> ys ! Suc c" using da in_ys by (rule distinct_adj_nth)
  ultimately show False using c(3) 1 2 by simp
qed

lemma not_movable_settled: "\<not> movable xs \<Longrightarrow> settled xs"
proof (induction xs rule: induct_list012)
  case 1
  show ?case unfolding settled_def by (intro exI[of _ "[]"] exI[of _ 0]) simp
next
  case (2 x)
  show ?case
  proof (cases "x = 0")
    case True
    then show ?thesis unfolding settled_def by (intro exI[of _ "[]"] exI[of _ 1]) simp
  next
    case False
    then show ?thesis unfolding settled_def by (intro exI[of _ "[x]"] exI[of _ 0]) simp
  qed
next
  case (3 x y zs)
  from 3(3) have nm: "\<not> movable (y # zs)" and xy: "y = 0 \<or> (x \<noteq> 0 \<and> x \<noteq> y)"
    by (auto simp: movable_Cons2)
  from 3(2)[OF nm] obtain ys k where yz: "y # zs = ys @ replicate k 0" and nz: "0 \<notin> set ys"
    and da: "distinct_adj ys"
    unfolding settled_def by blast
  show ?case
  proof (cases "y = 0")
    case True
    have "ys = []"
    proof (cases ys)
      case (Cons a as)
      with yz True nz show ?thesis by simp
    qed simp
    with yz have z: "y # zs = replicate k 0" by simp
    show ?thesis
    proof (cases "x = 0")
      case True
      then have "x # y # zs = [] @ replicate (Suc k) 0" using z by simp
      then show ?thesis unfolding settled_def by (intro exI[of _ "[]"] exI[of _ "Suc k"]) simp
    next
      case False
      have "x # y # zs = [x] @ replicate k 0" using z by simp
      then show ?thesis using False unfolding settled_def
        by (intro exI[of _ "[x]"] exI[of _ k]) simp
    qed
  next
    case False
    with xy have x: "x \<noteq> 0" "x \<noteq> y" by simp_all
    obtain as where ys: "ys = y # as"
    proof (cases ys)
      case Nil
      with yz have "y # zs = replicate k 0" by simp
      then have "y \<in> set (replicate k 0)" by (metis list.set_intros(1))
      with False show ?thesis by simp
    next
      case (Cons a as)
      with yz have "a = y" by simp
      with Cons that show ?thesis by simp
    qed
    have "x # y # zs = (x # ys) @ replicate k 0" using yz by simp
    moreover have "0 \<notin> set (x # ys)" using nz x by simp
    moreover have "distinct_adj (x # ys)" using da x ys by (simp add: distinct_adj_Cons)
    ultimately show ?thesis unfolding settled_def by blast
  qed
qed

lemma movable_iff_not_settled: "movable xs \<longleftrightarrow> \<not> settled xs"
  using settled_not_movable not_movable_settled by blast

lemma scan_tiles_fixed_iff:
  "0 \<notin> set ys \<Longrightarrow> scan_tiles ys = ys \<longleftrightarrow> distinct_adj ys"
proof (induction ys rule: scan_tiles.induct)
  case (3 x y xs)
  show ?case
  proof (cases "x = y")
    case True
    have "length (scan_tiles xs) \<le> length xs" by (rule length_scan_tiles)
    then have "length (x * 2 # scan_tiles xs) \<noteq> length (x # y # xs)" by simp
    then have "x * 2 # scan_tiles xs \<noteq> x # y # xs" by metis
    then show ?thesis using True 3(4) by (simp add: distinct_adj_Cons)
  next
    case False
    then show ?thesis using 3 by (simp add: distinct_adj_Cons)
  qed
qed auto

lemma slide_fixed_iff: "slide xs = xs \<longleftrightarrow> settled xs"
proof
  assume fx: "slide xs = xs"
  let ?ys = "scan_tiles (filter (\<lambda>i. i \<noteq> 0) xs)"
  have "filter (\<lambda>i. i \<noteq> 0) xs = ?ys" using filter_slide[of xs] fx by simp
  then have "scan_tiles ?ys = ?ys" by simp
  then have "distinct_adj ?ys" using scan_tiles_fixed_iff[OF scan_tiles_nonzero] by blast
  moreover have "xs = ?ys @ replicate (length xs - length ?ys) 0"
    using fx by (simp add: slide_def)
  ultimately show "settled xs"
    unfolding settled_def using scan_tiles_nonzero by blast
next
  assume "settled xs"
  then obtain ys k where xs: "xs = ys @ replicate k 0" and nz: "0 \<notin> set ys"
    and da: "distinct_adj ys"
    unfolding settled_def by blast
  have f: "filter (\<lambda>i. i \<noteq> 0) xs = ys" unfolding xs using nz by (rule filter_nonzero_pad)
  have s: "scan_tiles ys = ys" using scan_tiles_fixed_iff[OF nz] da by blast
  show "slide xs = xs" unfolding slide_def f s by (simp add: xs)
qed

lemma slide_changes_iff_movable: "slide xs \<noteq> xs \<longleftrightarrow> movable xs"
  by (simp add: slide_fixed_iff movable_iff_not_settled)

lemma board_moves_eq: "board_moves b = list_ex movable b"
  by (simp add: board_moves_def slide_changes_iff_movable)

lemma in_cells_iff:
  "square b \<Longrightarrow> v \<in> set (concat b) \<longleftrightarrow> (\<exists>r<length b. \<exists>c<length b. b ! r ! c = v)"
proof -
  assume sq: "square b"
  have "v \<in> set (concat b) \<longleftrightarrow> (\<exists>x\<in>set b. v \<in> set x)"
    by simp
  also have "\<dots> \<longleftrightarrow> (\<exists>r<length b. v \<in> set (b ! r))"
    by (metis in_set_conv_nth)
  also have "\<dots> \<longleftrightarrow> (\<exists>r<length b. \<exists>c<length b. b ! r ! c = v)"
  proof (intro ex_cong1 conj_cong refl)
    fix r assume "r < length b"
    then have "length (b ! r) = length b" using sq by (rule square_nth[rotated])
    then show "v \<in> set (b ! r) \<longleftrightarrow> (\<exists>c<length b. b ! r ! c = v)"
      by (simp add: in_set_conv_nth)
  qed
  finally show ?thesis .
qed

lemma check_for_win_eq:
  "check_for_win b w = (if square b then Inr (w \<in> set (concat b)) else Inl ValueError)"
proof (cases "square b")
  case True
  show ?thesis
    unfolding in_cells_iff[OF True]
    using True by (simp add: check_for_win_def get_board_size_eq list_ex_upt)
next
  case False
  then show ?thesis by (simp add: check_for_win_def get_board_size_eq)
qed

lemma get_empty_cells_set:
  assumes "square b"
  shows "\<exists>cells. get_empty_cells b = Inr cells
         \<and> set cells = {(r, c). r < length b \<and> c < length b \<and> b ! r ! c = 0}"
  using assms by (auto simp: get_empty_cells_def get_board_size_eq)

lemma get_empty_cells_Nil:
  assumes "square b" "get_empty_cells b = Inr cells"
  shows "cells = [] \<longleftrightarrow> 0 \<notin> set (concat b)"
proof -
  from get_empty_cells_set[OF assms(1)] assms(2)
  have s: "set cells = {(r, c). r < length b \<and> c < length b \<and> b ! r ! c = 0}" by simp
  have "cells = [] \<longleftrightarrow> set cells = {}" by simp
  also have "\<dots> \<longleftrightarrow> \<not> (\<exists>r<length b. \<exists>c<length b. b ! r ! c = 0)"
    unfolding s by auto
  also have "\<dots> \<longleftrightarrow> 0 \<notin> set (concat b)"
    using in_cells_iff[OF assms(1), of 0] by simp
  finally show ?thesis .
qed

lemma is_any_move_possible_eq:
  "is_any_move_possible b = (if square b then Inr (some_row_movable b) else Inl ValueError)"
  by (simp add: is_any_move_possible_def is_move_possible_eq some_row_movable_def)

lemma determine_game_status_eq:
  assumes "square b"
  shows "determine_game_status b w =
     Inr (if w \<in> set (concat b) then GAME_WON
          else if 0 \<notin> set (concat b) \<and> \<not> some_row_movable b then GAME_OVER
          else IN_PROGRESS)"
proof -
  from get_empty_cells_set[OF assms] obtain cells where c: "get_empty_cells b = Inr cells"
    by blast
  have e: "cells = [] \<longleftrightarrow> 0 \<notin> set (concat b)" using assms c by (rule get_empty_cells_Nil)
  show ?thesis
    using assms e
    by (simp add: determine_game_status_def check_for_win_eq no_empty_cells_def
          no_move_possible_def is_any_move_possible_eq c)
qed

lemma square_zero_board: "0 < n \<Longrightarrow> square (zero_board n)"
  by (simp add: square_def zero_board_def list_all_length)

lemma transposed_zero_board: "transposed (zero_board n) = zero_board n"
  by (auto intro!: nth_equalityI simp: transposed_def zero_board_def)

lemma map_rev_zero_board: "map rev (zero_board n) = zero_board n"
  by (simp add: zero_board_def)

lemma orient_zero_board: "orient d (zero_board n) = zero_board n"
  by (cases d) (simp_all add: transposed_zero_board map_rev_zero_board)

lemma not_movable_zeros: "\<not> movable (replicate n 0)"
  by (simp add: movable_iff)

lemma no_row_movable_zero_board: "\<not> list_ex movable (zero_board n)"
  by (simp add: zero_board_def list_ex_iff not_movable_zeros)

lemma line_score_zeros: "line_score (replicate n 0) = 0"
  by (simp add: line_score_def)

lemma board_score_zero_board: "board_score (zero_board n) = 0"
  by (simp add: board_score_def zero_board_def line_score_zeros sum_list_replicate)

lemma zero_in_zero_board: "0 < n \<Longrightarrow> set (concat (zero_board n)) = {0}"
  by (auto simp: zero_board_def)

lemma tile_value_cases: "tile_value d = 2 \<or> tile_value d = 4"
  by (simp add: tile_value_def)

lemma add_random_tile_full:
  assumes "square b" "0 \<notin> set (concat b)"
  shows "add_random_tile b d = Inr (b, False)"
proof -
  from get_empty_cells_set[OF assms(1)] obtain cells where c: "get_empty_cells b = Inr cells"
    by blast
  have "cells = []" using get_empty_cells_Nil[OF assms(1) c] assms(2) by simp
  then show ?thesis by (simp add: add_random_tile_def c)
qed

lemma add_random_tile_places:
  assumes "square b" "0 \<in> set (concat b)"
  shows "\<exists>r c. r < length b \<and> c < length b \<and> b ! r ! c = 0
           \<and> add_random_tile b d = Inr (b[r := (b ! r)[c := tile_value d]], True)"
proof -
  from get_empty_cells_set[OF assms(1)] obtain cells where c: "get_empty_cells b = Inr cells"
    and s: "set cells = {(r, c). r < length b \<and> c < length b \<and> b ! r ! c = 0}"
    by blast
  have ne: "cells \<noteq> []" using get_empty_cells_Nil[OF assms(1) c] assms(2) by simp
  obtain r k where rk: "cells ! (pick d mod length cells) = (r, k)" by (cases "cells ! (pick d mod length cells)")
  have "cells ! (pick d mod length cells) \<in> set cells" using ne by simp
  then have "r < length b \<and> k < length b \<and> b ! r ! k = 0" using s rk by auto
  moreover have "add_random_tile b d = Inr (b[r := (b ! r)[k := tile_value d]], True)"
    using ne by (simp add: add_random_tile_def c rk tile_value_def)
  ultimately show ?thesis by blast
qed

lemma add_random_tile_single:
  assumes "square b" "r < length b" "c < length b" "b ! r ! c = 0"
    and only: "\<forall>r'<length b. \<forall>c'<length b. b ! r' ! c' = 0 \<longrightarrow> r' = r \<and> c' = c"
  shows "add_random_tile b d = Inr (b[r := (b ! r)[c := tile_value d]], True)"
proof -
  have "0 \<in> set (concat b)" using in_cells_iff[OF assms(1), of 0] assms(2-4) by blast
  from add_random_tile_places[OF assms(1) this, of d] obtain r' c'
    where "r' < length b" "c' < length b" "b ! r' ! c' = 0"
      and res: "add_random_tile b d = Inr (b[r' := (b ! r')[c' := tile_value d]], True)"
    by blast
  then have "r' = r \<and> c' = c" using only by blast
  with res show ?thesis by simp
qed

lemma is_power_of_two_iff: "is_power_of_two v \<longleftrightarrow> (\<exists>k. v = 2 ^ k)"
proof
  assume "is_power_of_two v"
  then show "\<exists>k. v = 2 ^ k" by (auto simp: is_power_of_two_def list_ex_iff)
next
  assume "\<exists>k. v = 2 ^ k"
  then obtain k where k: "v = 2 ^ k" by blast
  have "k < 2 ^ k" by (rule less_exp)
  then have "int k < 2 ^ k" by (metis of_nat_less_iff of_nat_numeral of_nat_power)
  then have "k < nat v" using k by (simp add: zless_nat_eq_int_zless)
  then show "is_power_of_two v" using k by (auto simp: is_power_of_two_def list_ex_iff)
qed

lemma tile_ok_double: "tile_ok v \<Longrightarrow> tile_ok (v * 2)"
proof -
  assume "tile_ok v"
  then consider "v = 0" | k where "v = 2 ^ k"
    by (auto simp: tile_ok_def is_power_of_two_iff)
  then show ?thesis
  proof cases
    case 1
    then show ?thesis by (simp add: tile_ok_def)
  next
    case 2
    then have "v * 2 = 2 ^ Suc k" by simp
    then show ?thesis unfolding tile_ok_def is_power_of_two_iff by blast
  qed
qed

lemma tile_ok_nonneg: "tile_ok v \<Longrightarrow> 0 \<le> v"
  by (auto simp: tile_ok_def is_power_of_two_iff)

lemma tile_ok_0 [simp]: "tile_ok 0"
  by (simp add: tile_ok_def)

lemma tile_ok_2: "tile_ok 2"
  unfolding tile_ok_def is_power_of_two_iff by (intro disjI2 exI[of _ 1]) simp

lemma tile_ok_4: "tile_ok 4"
  unfolding tile_ok_def is_power_of_two_iff by (intro disjI2 exI[of _ 2]) simp

lemma tile_ok_tile_value: "tile_ok (tile_value d)"
  by (simp add: tile_value_def tile_ok_2 tile_ok_4)

lemma well_formed_iff: "well_formed b \<longleftrightarrow> square b \<and> cells_ok b"
  by (auto simp: well_formed_def square_def cells_ok_def tile_ok_def[abs_def])

lemma scan_tiles_ok: "list_all tile_ok xs \<Longrightarrow> list_all tile_ok (scan_tiles xs)"
  by (induction xs rule: scan_tiles.induct) (auto simp: tile_ok_double)

lemma slide_ok: "list_all tile_ok xs \<Longrightarrow> list_all tile_ok (slide xs)"
proof -
  assume a: "list_all tile_ok xs"
  then have "list_all tile_ok (filter (\<lambda>i. i \<noteq> 0) xs)" by (simp add: list_all_iff)
  then have "list_all tile_ok (scan_tiles (filter (\<lambda>i. i \<noteq> 0) xs))" by (rule scan_tiles_ok)
  then show ?thesis by (auto simp: slide_def list_all_iff)
qed

lemma cells_ok_map_slide: "cells_ok b \<Longrightarrow> cells_ok (map slide b)"
  unfolding cells_ok_def by (induction b) (simp_all add: slide_ok)

lemma cells_ok_map_rev: "cells_ok b \<Longrightarrow> cells_ok (map rev b)"
  by (simp add: cells_ok_def list_all_iff)

lemma cells_ok_transposed: "square b \<Longrightarrow> cells_ok b \<Longrightarrow> cells_ok (transposed b)"
  by (simp add: cells_ok_def list_all_length transposed_def square_nth)

lemma cells_ok_orient: "square b \<Longrightarrow> cells_ok b \<Longrightarrow> cells_ok (orient d b)"
  by (cases d) (simp_all add: cells_ok_transposed cells_ok_map_rev)

lemma cells_ok_unorient: "square b \<Longrightarrow> cells_ok b \<Longrightarrow> cells_ok (unorient d b)"
  by (cases d) (simp_all add: cells_ok_transposed cells_ok_map_rev)

lemma square_unorient: "square b \<Longrightarrow> square (unorient d b)"
  by (cases d) (simp_all add: square_transposed square_nonempty)

lemma move_result_well_formed:
  assumes "well_formed b"
  shows "well_formed (unorient d (map slide (orient d b)))"
proof -
  from assms have sq: "square b" and ok: "cells_ok b" by (simp_all add: well_formed_iff)
  have sq1: "square (map slide (orient d b))" using sq by (simp add: square_orient)
  have ok1: "cells_ok (map slide (orient d b))"
    using sq ok by (intro cells_ok_map_slide cells_ok_orient)
  show ?thesis
    unfolding well_formed_iff using sq1 ok1 by (simp add: square_unorient cells_ok_unorient)
qed

lemma nth_update_cell:
  "n < length b \<Longrightarrow>
   b[r := (b ! r)[c := v]] ! n = (if n = r then (b ! r)[c := v] else b ! n)"
  by (cases "r < length b") (simp_all add: nth_list_update)

lemma square_update:
  "square b \<Longrightarrow> square (b[r := (b ! r)[c := v]])"
  by (simp add: square_def list_all_length nth_update_cell)

lemma cells_ok_update:
  "cells_ok b \<Longrightarrow> tile_ok v \<Longrightarrow> cells_ok (b[r := (b ! r)[c := v]])"
  by (cases "c < length (b ! r)")
     (simp_all add: cells_ok_def list_all_length nth_update_cell nth_list_update)

lemma add_random_tile_well_formed:
  assumes "well_formed b"
  shows "\<exists>new_board added. add_random_tile b d = Inr (new_board, added) \<and> well_formed new_board"
proof -
  from assms have sq: "square b" and ok: "cells_ok b" by (simp_all add: well_formed_iff)
  show ?thesis
  proof (cases "0 \<in> set (concat b)")
    case False
    with sq have "add_random_tile b d = Inr (b, False)" by (intro add_random_tile_full)
    with assms show ?thesis by blast
  next
    case True
    from add_random_tile_places[OF sq True, of d] obtain r c
      where res: "add_random_tile b d = Inr (b[r := (b ! r)[c := tile_value d]], True)"
      by blast
    have "well_formed (b[r := (b ! r)[c := tile_value d]])"
      unfolding well_formed_iff
      using sq ok by (simp add: square_update cells_ok_update tile_ok_tile_value)
    with res show ?thesis by blast
  qed
qed

lemma filter_update_count:
  assumes "c < length row" "row ! c = 0" "v \<noteq> 0"
  shows "length (filter (\<lambda>v. v \<noteq> (0::int)) (row[c := v]))
           = Suc (length (filter (\<lambda>v. v \<noteq> 0) row))"
proof -
  have u: "row[c := v] = take c row @ v # drop (Suc c) row"
    using assms(1) by (rule upd_conv_take_nth_drop)
  have i: "row = take c row @ row ! c # drop (Suc c) row"
    using assms(1) by (rule id_take_nth_drop)
  have "length (filter (\<lambda>v. v \<noteq> 0) row)
          = length (filter (\<lambda>v. v \<noteq> 0) (take c row @ row ! c # drop (Suc c) row))"
    using i by simp
  then show ?thesis unfolding u using assms(2,3) by simp
qed

lemma count_nonzero_update:
  assumes "r < length b" "c < length (b ! r)" "b ! r ! c = 0" "v \<noteq> 0"
  shows "count_nonzero (b[r := (b ! r)[c := v]]) = Suc (count_nonzero b)"
proof -
  have u: "b[r := (b ! r)[c := v]] = take r b @ (b ! r)[c := v] # drop (Suc r) b"
    using assms(1) by (rule upd_conv_take_nth_drop)
  have i: "b = take r b @ b ! r # drop (Suc r) b"
    using assms(1) by (rule id_take_nth_drop)
  have "count_nonzero b = count_nonzero (take r b @ b ! r # drop (Suc r) b)"
    using i by simp
  then show ?thesis
    unfolding u count_nonzero_def
    using filter_update_count[OF assms(2,3,4)] by simp
qed

lemma length_filter_full:
  "length (filter P xs) = length xs \<longleftrightarrow> (\<forall>x\<in>set xs. P x)"
proof (induction xs)
  case (Cons x xs)
  have le: "length (filter P xs) \<le> length xs" by (rule length_filter_le)
  show ?case
  proof (cases "P x")
    case True
    then show ?thesis using Cons by simp
  next
    case False
    have "length (filter P xs) \<noteq> Suc (length xs)" using le by linarith
    then show ?thesis using False by simp
  qed
qed simp

lemma count_nonzero_full:
  "count_nonzero b = length (concat b) \<longleftrightarrow> 0 \<notin> set (concat b)"
  unfolding count_nonzero_def length_filter_full by blast

lemma length_concat_square: "square b \<Longrightarrow> length (concat b) = length b * length b"
proof -
  assume "square b"
  then have "map length b = replicate (length b) (length b)"
    by (auto intro!: nth_equalityI simp: square_nth)
  then show ?thesis by (simp add: length_concat sum_list_replicate)
qed

lemma count_nonzero_zero_board: "count_nonzero (zero_board n) = 0"
  by (simp add: count_nonzero_def zero_board_def)

lemma cells_update_subset:
  "set (concat (b[r := (b ! r)[c := v]])) \<subseteq> insert v (set (concat b))"
proof
  fix x assume "x \<in> set (concat (b[r := (b ! r)[c := v]]))"
  then obtain row where row: "row \<in> set (b[r := (b ! r)[c := v]])" and x: "x \<in> set row"
    by auto
  from row obtain i where i: "i < length b" "row = b[r := (b ! r)[c := v]] ! i"
    by (auto simp: in_set_conv_nth)
  have "row = (b ! r)[c := v] \<and> r < length b \<or> row \<in> set b"
  proof (cases "i = r")
    case True
    then show ?thesis using i by (simp add: nth_update_cell)
  next
    case False
    then have "row = b ! i" using i by (simp add: nth_update_cell)
    then show ?thesis using i(1) by simp
  qed
  then show "x \<in> insert v (set (concat b))"
  proof
    assume a: "row = (b ! r)[c := v] \<and> r < length b"
    then have "x \<in> insert v (set (b ! r))"
      using x set_update_subset_insert[of "b ! r" c v] by blast
    moreover have "b ! r \<in> set b" using a by simp
    then have "set (b ! r) \<subseteq> set (concat b)" by auto
    ultimately show ?thesis by blast
  next
    assume "row \<in> set b"
    with x show ?thesis by auto
  qed
qed

lemma length_update_cell [simp]: "length (b[r := (b ! r)[c := v]]) = length b"
  by simp

lemma initialize_board_positive:
  assumes "0 < k"
  shows "\<exists>b. initialize_board (IntSize k) d1 d2 = Inr (b, 0, IN_PROGRESS)
           \<and> well_formed b \<and> length b = nat k
           \<and> count_nonzero b = (if k = 1 then 1 else 2)
           \<and> set (concat b) \<subseteq> {0, 2, 4}"
proof -
  let ?n = "nat k"
  let ?Z = "zero_board ?n"
  have n: "0 < ?n" using assms by simp
  have sqZ: "square ?Z" using n by (rule square_zero_board)
  have wfZ: "well_formed ?Z"
    unfolding well_formed_iff using sqZ
    by (simp add: cells_ok_def zero_board_def list_all_length)
  have zin: "0 \<in> set (concat ?Z)" using zero_in_zero_board[OF n] by simp
  from add_random_tile_places[OF sqZ zin, of d1] obtain r c
    where rc: "r < length ?Z" "c < length ?Z" "?Z ! r ! c = 0"
      and res1: "add_random_tile ?Z d1 = Inr (?Z[r := (?Z ! r)[c := tile_value d1]], True)"
    by blast
  let ?b1 = "?Z[r := (?Z ! r)[c := tile_value d1]]"
  have tv: "tile_value d \<noteq> 0" "tile_value d \<in> {0, 2, 4}" for d
    using tile_value_cases[of d] by auto
  have lrow: "c < length (?Z ! r)" using rc sqZ by (simp add: square_nth)
  have cnt1: "count_nonzero ?b1 = 1"
    using count_nonzero_update[OF rc(1) lrow rc(3) tv(1)[of d1]]
    by (simp add: count_nonzero_zero_board)
  have wf1: "well_formed ?b1"
    using wfZ unfolding well_formed_iff
    by (simp add: square_update cells_ok_update tile_ok_tile_value)
  then have sq1: "square ?b1" by (simp add: well_formed_iff)
  have len1: "length ?b1 = ?n" by (simp add: zero_board_def)
  have sub1: "set (concat ?b1) \<subseteq> {0, 2, 4}"
    using cells_update_subset[of ?Z r c "tile_value d1"] zero_in_zero_board[OF n] tv(2)[of d1]
    by auto
  have cells1: "length (concat ?b1) = ?n * ?n"
    using length_concat_square[OF sq1] len1 by simp
  have init: "initialize_board (IntSize k) d1 d2 =
      (case add_random_tile ?b1 d2 of Inl e \<Rightarrow> Inl e
       | Inr (board2, _) \<Rightarrow> Inr (board2, 0, IN_PROGRESS))"
    using assms res1 by (simp add: initialize_board_def zero_board_def)
  show ?thesis
  proof (cases "0 \<in> set (concat ?b1)")
    case True
    have "count_nonzero ?b1 \<noteq> length (concat ?b1)" using True count_nonzero_full by blast
    then have "?n * ?n \<noteq> 1" using cnt1 cells1 by simp
    then have k1: "k \<noteq> 1" by auto
    from add_random_tile_places[OF sq1 True, of d2] obtain r' c'
      where rc': "r' < length ?b1" "c' < length ?b1" "?b1 ! r' ! c' = 0"
        and res2: "add_random_tile ?b1 d2 = Inr (?b1[r' := (?b1 ! r')[c' := tile_value d2]], True)"
      by blast
    let ?b2 = "?b1[r' := (?b1 ! r')[c' := tile_value d2]]"
    have lrow': "c' < length (?b1 ! r')" using rc' sq1 by (simp add: square_nth)
    have cnt2: "count_nonzero ?b2 = 2"
      using count_nonzero_update[OF rc'(1) lrow' rc'(3) tv(1)[of d2]] cnt1 by simp
    have wf2: "well_formed ?b2"
      using wf1 unfolding well_formed_iff
      by (simp add: square_update cells_ok_update tile_ok_tile_value)
    have len2: "length ?b2 = ?n" using len1 by simp
    have sub2: "set (concat ?b2) \<subseteq> {0, 2, 4}"
      using cells_update_subset[of ?b1 r' c' "tile_value d2"] sub1 tv(2)[of d2] by blast
    have "initialize_board (IntSize k) d1 d2 = Inr (?b2, 0, IN_PROGRESS)"
      unfolding init res2 by simp
    with wf2 len2 cnt2 sub2 k1 show ?thesis by auto
  next
    case False
    have "count_nonzero ?b1 = length (concat ?b1)" using False count_nonzero_full by blast
    then have "?n * ?n = 1" using cnt1 cells1 by simp
    then have k1: "k = 1" using assms by auto
    have res2: "add_random_tile ?b1 d2 = Inr (?b1, False)"
      using sq1 False by (rule add_random_tile_full)
    have "initialize_board (IntSize k) d1 d2 = Inr (?b1, 0, IN_PROGRESS)"
      unfolding init res2 by simp
    with wf1 len1 cnt1 sub1 k1 show ?thesis by auto
  qed
qed

lemma scan_tiles_mset:
  "mset (scan_tiles ys) = mset (kept_values ys) + mset (map (\<lambda>v. v * 2) (merged_values ys))"
  by (induction ys rule: scan_tiles.induct) simp_all

lemma scan_input_mset:
  "mset (filter (\<lambda>i. i \<noteq> 0) ys)
     = mset (kept_values ys) + mset (merged_values ys) + mset (merged_values ys)"
  by (induction ys rule: scan_tiles.induct) simp_all

lemma scan_score_merged: "scan_score ys = sum_list (map (\<lambda>v. v * 2) (merged_values ys))"
  by (induction ys rule: scan_tiles.induct) simp_all

lemma merged_values_nonzero: "0 \<notin> set (merged_values ys)"
  by (induction ys rule: merged_values.induct) auto

lemma filter_filter_nonzero:
  "filter (\<lambda>i. i \<noteq> (0::int)) (filter (\<lambda>i. i \<noteq> 0) xs) = filter (\<lambda>i. i \<noteq> 0) xs"
  by simp

lemma row_input_mset:
  "mset (filter (\<lambda>i. i \<noteq> 0) row)
     = mset (kept_values (filter (\<lambda>i. i \<noteq> 0) row))
       + mset (merged_values (filter (\<lambda>i. i \<noteq> 0) row))
       + mset (merged_values (filter (\<lambda>i. i \<noteq> 0) row))"
  using scan_input_mset[of "filter (\<lambda>i. i \<noteq> 0) row"] by (simp only: filter_filter_nonzero)

lemma row_output_mset:
  "mset (filter (\<lambda>i. i \<noteq> 0) (slide row))
     = mset (kept_values (filter (\<lambda>i. i \<noteq> 0) row))
       + mset (map (\<lambda>v. v * 2) (merged_values (filter (\<lambda>i. i \<noteq> 0) row)))"
  by (simp only: filter_slide scan_tiles_mset)

lemma board_input_mset:
  "mset (filter (\<lambda>i. i \<noteq> 0) (concat b))
     = mset (board_kept b) + mset (board_merged b) + mset (board_merged b)"
proof (induction b)
  case Nil
  show ?case by (simp add: board_kept_def board_merged_def)
next
  case (Cons row b)
  have "mset (filter (\<lambda>i. i \<noteq> 0) (concat (row # b)))
      = mset (filter (\<lambda>i. i \<noteq> 0) row) + mset (filter (\<lambda>i. i \<noteq> 0) (concat b))"
    by simp
  also have "\<dots> = (mset (kept_values (filter (\<lambda>i. i \<noteq> 0) row))
       + mset (merged_values (filter (\<lambda>i. i \<noteq> 0) row))
       + mset (merged_values (filter (\<lambda>i. i \<noteq> 0) row)))
     + (mset (board_kept b) + mset (board_merged b) + mset (board_merged b))"
    by (simp only: row_input_mset[of row] Cons.IH)
  also have "\<dots> = mset (board_kept (row # b)) + mset (board_merged (row # b))
                    + mset (board_merged (row # b))"
    by (simp add: board_kept_def board_merged_def)
  finally show ?case .
qed

lemma board_output_mset:
  "mset (filter (\<lambda>i. i \<noteq> 0) (concat (map slide b)))
     = mset (board_kept b) + mset (map (\<lambda>v. v * 2) (board_merged b))"
proof (induction b)
  case Nil
  show ?case by (simp add: board_kept_def board_merged_def)
next
  case (Cons row b)
  have "mset (filter (\<lambda>i. i \<noteq> 0) (concat (map slide (row # b))))
      = mset (filter (\<lambda>i. i \<noteq> 0) (slide row))
        + mset (filter (\<lambda>i. i \<noteq> 0) (concat (map slide b)))"
    by simp
  also have "\<dots> = (mset (kept_values (filter (\<lambda>i. i \<noteq> 0) row))
       + mset (map (\<lambda>v. v * 2) (merged_values (filter (\<lambda>i. i \<noteq> 0) row))))
     + (mset (board_kept b) + mset (map (\<lambda>v. v * 2) (board_merged b)))"
    by (simp only: row_output_mset[of row] Cons.IH)
  also have "\<dots> = mset (board_kept (row # b)) + mset (map (\<lambda>v. v * 2) (board_merged (row # b)))"
    by (simp add: board_kept_def board_merged_def)
  finally show ?case .
qed

lemma board_score_merged: "board_score b = sum_list (map (\<lambda>v. v * 2) (board_merged b))"
  by (induction b)
     (simp_all add: board_score_def board_merged_def line_score_def scan_score_merged)

lemma board_merged_nonzero: "0 \<notin> set (board_merged b)"
  using merged_values_nonzero by (auto simp: board_merged_def)

lemma mset_concat_heads:
  "mset (concat (map (\<lambda>j. g j # h j) ys)) = mset (map g ys) + mset (concat (map h ys))"
  by (induction ys) simp_all

lemma mset_concat_swap:
  "mset (concat (map (\<lambda>i. map (f i) ys) xs)) = mset (concat (map (\<lambda>j. map (\<lambda>i. f i j) xs) ys))"
proof (induction xs)
  case Nil
  show ?case by (induction ys) simp_all
next
  case (Cons x xs)
  have "mset (concat (map (\<lambda>j. map (\<lambda>i. f i j) (x # xs)) ys))
        = mset (concat (map (\<lambda>j. f x j # map (\<lambda>i. f i j) xs) ys))"
    by simp
  also have "\<dots> = mset (map (f x) ys) + mset (concat (map (\<lambda>j. map (\<lambda>i. f i j) xs) ys))"
    by (rule mset_concat_heads)
  finally show ?case using Cons by simp
qed

lemma square_as_table:
  "square b \<Longrightarrow> b = map (\<lambda>r. map (\<lambda>c. b ! r ! c) [0..<length b]) [0..<length b]"
  by (auto intro!: nth_equalityI simp: square_nth)

lemma mset_cells_transposed:
  assumes "square b"
  shows "mset (concat (transposed b)) = mset (concat b)"
proof -
  have "mset (concat (transposed b))
      = mset (concat (map (\<lambda>c. map (\<lambda>r. b ! r ! c) [0..<length b]) [0..<length b]))"
    by (simp add: transposed_def)
  also have "\<dots> = mset (concat (map (\<lambda>r. map (\<lambda>c. b ! r ! c) [0..<length b]) [0..<length b]))"
    by (rule mset_concat_swap)
  also have "\<dots> = mset (concat b)"
    using square_as_table[OF assms] by simp
  finally show ?thesis .
qed

lemma mset_cells_map_rev: "mset (concat (map rev b)) = mset (concat b)"
  by (induction b) simp_all

lemma mset_cells_orient: "square b \<Longrightarrow> mset (concat (orient d b)) = mset (concat b)"
  by (cases d)
     (simp_all add: mset_cells_transposed mset_cells_map_rev del: map_map)

lemma mset_cells_unorient: "square b \<Longrightarrow> mset (concat (unorient d b)) = mset (concat b)"
  by (cases d)
     (simp_all add: mset_cells_transposed mset_cells_map_rev del: map_map)

lemma sum_list_filter_nonzero: "sum_list (filter (\<lambda>i. i \<noteq> (0::int)) xs) = sum_list xs"
  by (induction xs) simp_all

lemma sum_list_doubled: "sum_list (map (\<lambda>v. v * 2) xs) = sum_list xs + sum_list (xs :: int list)"
  by (induction xs) simp_all

lemma scan_score_nonneg: "\<forall>x\<in>set ys. 0 \<le> x \<Longrightarrow> 0 \<le> scan_score ys"
  by (induction ys rule: scan_score.induct) auto

lemma scan_score_zero_distinct:
  "\<forall>x\<in>set ys. 0 < x \<Longrightarrow> scan_score ys = 0 \<Longrightarrow> distinct_adj ys"
proof (induction ys rule: scan_score.induct)
  case (3 x y xs)
  have px: "0 < x" and py: "0 < y" using 3(4) by simp_all
  show ?case
  proof (cases "x = y")
    case True
    have "0 \<le> scan_score xs" using 3(4) by (intro scan_score_nonneg) auto
    then have "0 < scan_score (x # y # xs)" using True px by simp
    with 3(5) show ?thesis by simp
  next
    case False
    then have "scan_score (y # xs) = 0" using 3(5) px by simp
    then have "distinct_adj (y # xs)" using 3(3) False px 3(4) by simp
    then show ?thesis using False by (simp add: distinct_adj_Cons)
  qed
qed simp_all

lemma tiles_positive:
  "list_all tile_ok xs \<Longrightarrow> \<forall>x\<in>set (filter (\<lambda>i. i \<noteq> 0) xs). 0 < x"
  using tile_ok_nonneg by (fastforce simp: list_all_iff)

lemma line_score_nonneg: "list_all tile_ok xs \<Longrightarrow> 0 \<le> line_score xs"
  unfolding line_score_def
  by (rule scan_score_nonneg) (use tiles_positive in fastforce)

lemma settled_slide_of_distinct:
  assumes "distinct_adj (filter (\<lambda>i. i \<noteq> 0) xs)"
  shows "settled (slide xs)"
proof -
  let ?ys = "filter (\<lambda>i. i \<noteq> 0) xs"
  have nz: "0 \<notin> set ?ys" by simp
  have "scan_tiles ?ys = ?ys" using scan_tiles_fixed_iff[OF nz] assms by blast
  then have "slide xs = ?ys @ replicate (length xs - length ?ys) 0" by (simp add: slide_def)
  then show ?thesis unfolding settled_def using nz assms by blast
qed

lemma line_score_zero_settled:
  assumes "list_all tile_ok xs" "line_score xs = 0"
  shows "slide (slide xs) = slide xs"
proof -
  have "distinct_adj (filter (\<lambda>i. i \<noteq> 0) xs)"
    using tiles_positive[OF assms(1)] assms(2) unfolding line_score_def
    by (rule scan_score_zero_distinct)
  then have "settled (slide xs)" by (rule settled_slide_of_distinct)
  then show ?thesis by (simp add: slide_fixed_iff)
qed

lemma reslide_changes_score:
  assumes "list_all tile_ok xs" "slide (slide xs) \<noteq> slide xs"
  shows "0 < line_score (slide xs)"
proof -
  have ok: "list_all tile_ok (slide xs)" using assms(1) by (rule slide_ok)
  have "\<not> distinct_adj (filter (\<lambda>i. i \<noteq> 0) (slide xs))"
  proof
    assume da: "distinct_adj (filter (\<lambda>i. i \<noteq> 0) (slide xs))"
    let ?M = "scan_tiles (filter (\<lambda>i. i \<noteq> 0) xs)"
    have "distinct_adj ?M" using da by (simp only: filter_slide)
    moreover have "slide xs = ?M @ replicate (length xs - length ?M) 0"
      by (simp add: slide_def)
    ultimately have "settled (slide xs)"
      unfolding settled_def using scan_tiles_nonzero by blast
    then have "slide (slide xs) = slide xs" by (simp add: slide_fixed_iff)
    with assms(2) show False by simp
  qed
  then have "line_score (slide xs) \<noteq> 0"
    using scan_score_zero_distinct[OF tiles_positive[OF ok]] unfolding line_score_def by blast
  with line_score_nonneg[OF ok] show ?thesis by simp
qed

lemma orient_unorient: "square b \<Longrightarrow> orient d (unorient d b) = b"
  by (cases d) (simp_all add: transposed_transposed map_rev_rev)

lemma board_score_nonneg: "cells_ok b \<Longrightarrow> 0 \<le> board_score b"
  unfolding board_score_def cells_ok_def
  by (rule sum_list_nonneg) (auto simp: list_all_iff line_score_nonneg)

lemma board_score_zero_rows:
  assumes "cells_ok b" "board_score b = 0" "row \<in> set b"
  shows "line_score row = 0"
proof -
  have "\<forall>x\<in>set (map line_score b). 0 \<le> x"
    using assms(1) by (auto simp: cells_ok_def list_all_iff line_score_nonneg)
  then have "\<forall>x\<in>set (map line_score b). x = 0"
    using assms(2) sum_list_nonneg_eq_0_iff[of "map line_score b"]
    unfolding board_score_def by blast
  with assms(3) show ?thesis by simp
qed

lemma board_score_pos:
  assumes "cells_ok b" "row \<in> set b" "0 < line_score row"
  shows "0 < board_score b"
proof (rule ccontr)
  assume "\<not> 0 < board_score b"
  then have "board_score b = 0" using board_score_nonneg[OF assms(1)] by simp
  then have "line_score row = 0" using assms(1,2) by (intro board_score_zero_rows)
  with assms(3) show False by simp
qed

lemma second_move:
  assumes "well_formed b"
  shows "process_move (unorient d (map slide (orient d b))) (Dir d) =
     Inr (unorient d (map slide (map slide (orient d b))),
          board_score (map slide (orient d b)),
          board_moves (map slide (orient d b)))"
proof -
  from assms have sq: "square b" by (simp add: well_formed_iff)
  have sq1: "square (map slide (orient d b))" using sq by (simp add: square_orient)
  have "square (unorient d (map slide (orient d b)))" using sq1 by (rule square_unorient)
  then show ?thesis by (simp add: process_move_eq orient_unorient[OF sq1])
qed

section \<open>Move equivalence\<close>

text \<open>
  C1. For every square board and every direction of the enumeration, \<open>process_move\<close>
  returns, and its \<open>changed\<close> flag is exactly the answer of
  \<open>is_move_possible_in_direction\<close> for that board and direction. The entries of the
  board play no role, so the statement covers every well-formed board.
\<close>

theorem changed_iff_move_possible:
  assumes "square board"
  shows "\<exists>new_board score_delta changed.
           process_move board (Dir d) = Inr (new_board, score_delta, changed)
         \<and> is_move_possible_in_direction board (Dir d) = Inr changed"
  using assms by (simp add: process_move_eq is_move_possible_eq board_moves_eq)

theorem changed_iff_move_possible_witness:
  "square [[2,0],[2,4]]
   \<and> process_move [[2,0],[2,4]] (Dir DOWN) = Inr ([[0,0],[4,4]], 4, True)
   \<and> is_move_possible_in_direction [[2,0],[2,4]] (Dir DOWN) = Inr True"
proof -
  have sq: "square [[2,0],[2,4]]" by (simp add: square_def)
  have run: "process_move [[2,0],[2,4]] (Dir DOWN) = Inr ([[0,0],[4,4]], 4, True)"
    by code_simp
  from changed_iff_move_possible[OF sq, of DOWN] obtain nb s ch
    where a: "process_move [[2,0],[2,4]] (Dir DOWN) = Inr (nb, s, ch)"
      and b: "is_move_possible_in_direction [[2,0],[2,4]] (Dir DOWN) = Inr ch"
    by blast
  from a run have "ch = True" by (simp del: process_move.simps)
  with sq run b show ?thesis by (simp del: process_move.simps)
qed

section \<open>Scenario B: a row of four equal tiles\<close>

text \<open>
  C8. On the 4x4 board whose first row is \<open>[2,2,2,2]\<close> and whose other cells are zero,
  \<open>process_move\<close> with direction Left returns a board whose first row is \<open>[4,4,0,0]\<close>
  (the two produced 4s are not merged again in the same pass), a score delta of 8 and
  \<open>changed = True\<close>.
\<close>

theorem scenario_b_left:
  "process_move [[2,2,2,2],[0,0,0,0],[0,0,0,0],[0,0,0,0]] (Dir LEFT)
     = Inr ([[4,4,0,0],[0,0,0,0],[0,0,0,0],[0,0,0,0]], 8, True)"
  by code_simp

section \<open>Status evaluation\<close>

text \<open>
  C4. For every square board and every win tile, \<open>determine_game_status\<close> returns
  \<open>GAME_WON\<close> exactly when some cell equals the win tile (whatever else holds of the
  board); otherwise \<open>GAME_OVER\<close> exactly when \<open>get_empty_cells\<close> is empty and
  \<open>is_any_move_possible\<close> is false; and \<open>IN_PROGRESS\<close> in every remaining case. The list
  of empty cells is empty exactly when no cell of the board is zero.
\<close>

theorem determine_game_status_cases:
  assumes "square board"
  shows "\<exists>cells possible.
           get_empty_cells board = Inr cells
         \<and> is_any_move_possible board = Inr possible
         \<and> (cells = []) = (0 \<notin> set (concat board))
         \<and> determine_game_status board win_tile =
             Inr (if win_tile \<in> set (concat board) then GAME_WON
                  else if cells = [] \<and> \<not> possible then GAME_OVER
                  else IN_PROGRESS)"
proof -
  from get_empty_cells_set[OF assms] obtain cells where c: "get_empty_cells board = Inr cells"
    by blast
  have e: "(cells = []) = (0 \<notin> set (concat board))"
    using assms c by (rule get_empty_cells_Nil)
  have m: "is_any_move_possible board = Inr (some_row_movable board)"
    using assms by (simp add: is_any_move_possible_eq)
  have "determine_game_status board win_tile =
             Inr (if win_tile \<in> set (concat board) then GAME_WON
                  else if cells = [] \<and> \<not> some_row_movable board then GAME_OVER
                  else IN_PROGRESS)"
    unfolding e using assms by (rule determine_game_status_eq)
  with c e m show ?thesis by blast
qed

theorem determine_game_status_cases_witness:
  "square [[2,4],[4,2]]
   \<and> get_empty_cells [[2,4],[4,2]] = Inr []
   \<and> is_any_move_possible [[2,4],[4,2]] = Inr False
   \<and> determine_game_status [[2,4],[4,2]] 2048 = Inr GAME_OVER
   \<and> determine_game_status [[2,4],[4,2]] 4 = Inr GAME_WON"
proof -
  have sq: "square [[2,4],[4,2]]" by (simp add: square_def)
  have c: "get_empty_cells [[2,4],[4,2]] = Inr []" by code_simp
  have m: "is_any_move_possible [[2,4],[4,2]] = Inr False" by code_simp
  from determine_game_status_cases[OF sq, of 2048] c m
  have lost: "determine_game_status [[2,4],[4,2]] 2048 = Inr GAME_OVER" by auto
  from determine_game_status_cases[OF sq, of 4] c m
  have won: "determine_game_status [[2,4],[4,2]] 4 = Inr GAME_WON" by auto
  from sq c m lost won show ?thesis by simp
qed

section \<open>The conditional inverse transform\<close>

text \<open>
  C5. \<open>process_move\<close>, which transforms the slid board back only when the slide changed
  something, returns the same result as \<open>process_move_always_inverse\<close>, which always
  transforms back (for every board and every direction argument, the failing ones
  included). Row reversal is an involution, and on a square board so is transposition:
  transposing twice returns the original board.
\<close>

theorem conditional_inverse_is_exact:
  "process_move board direction = process_move_always_inverse board direction
   \<and> reverse_rows (reverse_rows board) = board
   \<and> (square board \<longrightarrow>
        (\<exists>t. transpose_board board = Inr t \<and> transpose_board t = Inr board))"
proof (intro conjI impI)
  show "process_move board direction = process_move_always_inverse board direction"
  proof (cases direction)
    case (Dir d)
    then show ?thesis by (simp only: process_move_eq process_move_always_inverse_eq)
  next
    case NoDir
    then show ?thesis by simp
  qed
  show "reverse_rows (reverse_rows board) = board"
    by (simp add: reverse_rows_eq map_rev_rev)
  assume "square board"
  then show "\<exists>t. transpose_board board = Inr t \<and> transpose_board t = Inr board"
    by (simp add: transpose_board_eq square_transposed square_nonempty transposed_transposed)
qed

theorem conditional_inverse_is_exact_witness:
  "square [[2,4],[4,2]]
   \<and> process_move [[2,4],[4,2]] (Dir DOWN) = Inr ([[2,4],[4,2]], 0, False)
   \<and> process_move_always_inverse [[2,4],[4,2]] (Dir DOWN) = Inr ([[2,4],[4,2]], 0, False)
   \<and> reverse_rows (reverse_rows [[2,4],[4,2]]) = [[2,4],[4,2]]
   \<and> (\<exists>t. transpose_board [[2,4],[4,2]] = Inr t \<and> transpose_board t = Inr [[2,4],[4,2]])"
proof -
  have sq: "square [[2,4],[4,2]]" by (simp add: square_def)
  have run: "process_move [[2,4],[4,2]] (Dir DOWN) = Inr ([[2,4],[4,2]], 0, False)"
    by code_simp
  from conditional_inverse_is_exact[of "[[2,4],[4,2]]" "Dir DOWN"] sq run
  show ?thesis by (simp del: process_move.simps process_move_always_inverse.simps)
qed

section \<open>The empty board\<close>

text \<open>
  C10. On the all-zero board of any size \<open>n > 0\<close>: \<open>is_any_move_possible\<close> is false,
  \<open>process_move\<close> returns the board unchanged with score delta 0 and \<open>changed = False\<close>
  in every direction, and \<open>determine_game_status\<close> returns \<open>IN_PROGRESS\<close> for every
  win tile other than 0 (a win tile is a positive integer); for no win tile at all does
  it return \<open>GAME_OVER\<close>.
\<close>

theorem empty_board_in_progress:
  assumes "0 < n"
  shows "is_any_move_possible (zero_board n) = Inr False
       \<and> process_move (zero_board n) (Dir d) = Inr (zero_board n, 0, False)
       \<and> determine_game_status (zero_board n) win_tile
            = Inr (if win_tile = 0 then GAME_WON else IN_PROGRESS)"
proof -
  have sq: "square (zero_board n)" using assms by (rule square_zero_board)
  have nm: "\<not> some_row_movable (zero_board n)"
    by (simp add: some_row_movable_def orient_zero_board no_row_movable_zero_board)
  have 1: "is_any_move_possible (zero_board n) = Inr False"
    using sq nm by (simp add: is_any_move_possible_eq)
  have fixed: "unorient d (map slide (orient d (zero_board n))) = zero_board n"
    using sq no_row_movable_zero_board[of n]
    by (simp add: orient_zero_board not_moves_fixed board_moves_eq
          unorient_orient[of "zero_board n" d, unfolded orient_zero_board])
  have 2: "process_move (zero_board n) (Dir d) = Inr (zero_board n, 0, False)"
    using sq fixed no_row_movable_zero_board[of n]
    by (simp add: process_move_eq orient_zero_board board_score_zero_board board_moves_eq)
  have 3: "determine_game_status (zero_board n) win_tile
            = Inr (if win_tile = 0 then GAME_WON else IN_PROGRESS)"
    unfolding determine_game_status_eq[OF sq] zero_in_zero_board[OF assms] by simp
  from 1 2 3 show ?thesis by blast
qed

theorem empty_board_in_progress_witness:
  "(0::nat) < 3
   \<and> zero_board 3 = [[0,0,0],[0,0,0],[0,0,0]]
   \<and> is_any_move_possible [[0,0,0],[0,0,0],[0,0,0]] = Inr False
   \<and> process_move [[0,0,0],[0,0,0],[0,0,0]] (Dir UP) = Inr ([[0,0,0],[0,0,0],[0,0,0]], 0, False)
   \<and> determine_game_status [[0,0,0],[0,0,0],[0,0,0]] 2048 = Inr IN_PROGRESS"
proof -
  have n: "(0::nat) < 3" by simp
  have z: "zero_board 3 = [[0,0,0],[0,0,0],[0,0,0]]" by code_simp
  from empty_board_in_progress[OF n, of UP 2048] n z
  show ?thesis by (simp del: process_move.simps)
qed

section \<open>Adding a random tile\<close>

text \<open>
  C7. On a square board, whatever the random source draws: if no cell is zero,
  \<open>add_random_tile\<close> returns the same board and \<open>added = False\<close>; if \<open>(r, c)\<close> is the only
  zero cell, it returns \<open>added = True\<close> and the board in which that cell holds 2 or 4
  and every other cell is as before.
\<close>

theorem add_random_tile_full_or_single:
  assumes "square board"
  shows "(0 \<notin> set (concat board) \<longrightarrow> add_random_tile board d = Inr (board, False))
       \<and> (r < length board \<and> c < length board \<and> board ! r ! c = 0
          \<and> (\<forall>r'<length board. \<forall>c'<length board. board ! r' ! c' = 0 \<longrightarrow> r' = r \<and> c' = c)
          \<longrightarrow> (\<exists>v new_board. (v = 2 \<or> v = 4)
                \<and> add_random_tile board d = Inr (new_board, True)
                \<and> new_board = board[r := (board ! r)[c := v]]
                \<and> new_board ! r ! c = v
                \<and> (\<forall>r'<length board. \<forall>c'<length board.
                      (r', c') \<noteq> (r, c) \<longrightarrow> new_board ! r' ! c' = board ! r' ! c')))"
proof (intro conjI impI)
  assume "0 \<notin> set (concat board)"
  with assms show "add_random_tile board d = Inr (board, False)"
    by (rule add_random_tile_full)
next
  assume h: "r < length board \<and> c < length board \<and> board ! r ! c = 0
          \<and> (\<forall>r'<length board. \<forall>c'<length board. board ! r' ! c' = 0 \<longrightarrow> r' = r \<and> c' = c)"
  let ?v = "tile_value d"
  let ?nb = "board[r := (board ! r)[c := ?v]]"
  have res: "add_random_tile board d = Inr (?nb, True)"
    using assms h by (intro add_random_tile_single) auto
  have len: "length (board ! r) = length board"
    using assms h by (simp add: square_nth)
  have at: "?nb ! r ! c = ?v" using h len by simp
  have others: "\<forall>r'<length board. \<forall>c'<length board.
                      (r', c') \<noteq> (r, c) \<longrightarrow> ?nb ! r' ! c' = board ! r' ! c'"
  proof (intro allI impI)
    fix r' c' assume b: "r' < length board" "c' < length board" and ne: "(r', c') \<noteq> (r, c)"
    show "?nb ! r' ! c' = board ! r' ! c'"
    proof (cases "r' = r")
      case True
      with ne have "c' \<noteq> c" by simp
      with True b show ?thesis by simp
    next
      case False
      then show ?thesis by simp
    qed
  qed
  show "\<exists>v new_board. (v = 2 \<or> v = 4)
                \<and> add_random_tile board d = Inr (new_board, True)
                \<and> new_board = board[r := (board ! r)[c := v]]
                \<and> new_board ! r ! c = v
                \<and> (\<forall>r'<length board. \<forall>c'<length board.
                      (r', c') \<noteq> (r, c) \<longrightarrow> new_board ! r' ! c' = board ! r' ! c')"
    using tile_value_cases[of d] res at others by blast
qed

theorem add_random_tile_full_or_single_witness:
  "square [[2,4],[4,2]]
   \<and> 0 \<notin> set (concat [[2,4],[4,2::int]])
   \<and> add_random_tile [[2,4],[4,2]] \<lparr>pick = 5, below_tenth = True\<rparr> = Inr ([[2,4],[4,2]], False)
   \<and> square [[2,0],[4,2]]
   \<and> [[2,0],[4,2::int]] ! 0 ! 1 = 0
   \<and> add_random_tile [[2,0],[4,2]] \<lparr>pick = 5, below_tenth = True\<rparr> = Inr ([[2,4],[4,2]], True)"
proof -
  have sq1: "square [[2,4],[4,2]]" and sq2: "square [[2,0],[4,2]]"
    by (simp_all add: square_def)
  have full: "0 \<notin> set (concat [[2,4],[4,2::int]])" by simp
  have one: "(0::nat) < length [[2,0],[4,2::int]] \<and> (1::nat) < length [[2,0],[4,2::int]]
       \<and> [[2,0],[4,2::int]] ! 0 ! 1 = 0
       \<and> (\<forall>r'<length [[2,0],[4,2::int]]. \<forall>c'<length [[2,0],[4,2::int]].
             [[2,0],[4,2::int]] ! r' ! c' = 0 \<longrightarrow> r' = 0 \<and> c' = 1)"
    by (auto simp: less_Suc_eq nth_Cons')
  have a: "add_random_tile [[2,4],[4,2]] \<lparr>pick = 5, below_tenth = True\<rparr> = Inr ([[2,4],[4,2]], False)"
    using add_random_tile_full_or_single[OF sq1, of "\<lparr>pick = 5, below_tenth = True\<rparr>"] full
    by blast
  from add_random_tile_full_or_single[OF sq2, of "\<lparr>pick = 5, below_tenth = True\<rparr>" 0 1] one
  obtain v nb where v: "v = 2 \<or> v = 4"
    and r: "add_random_tile [[2,0],[4,2]] \<lparr>pick = 5, below_tenth = True\<rparr> = Inr (nb, True)"
    and nb: "nb = [[2,0],[4,2]][0 := ([[2,0],[4,2]] ! 0)[1 := v]]"
    by blast
  have "add_random_tile [[2,0],[4,2]] \<lparr>pick = 5, below_tenth = True\<rparr> = Inr ([[2,4],[4,2]], True)"
    by code_simp
  with sq1 sq2 full a one show ?thesis by simp
qed

section \<open>The board invariant\<close>

text \<open>
  C9. A well-formed board (non-empty, square, every entry zero or a power of two) stays
  well-formed: for every direction of the enumeration \<open>process_move\<close> returns a
  well-formed board, and for every draw of the random source so does \<open>add_random_tile\<close>.
\<close>

theorem well_formed_preserved:
  assumes "well_formed board"
  shows "(\<exists>new_board score_delta changed.
            process_move board (Dir d) = Inr (new_board, score_delta, changed)
          \<and> well_formed new_board)
       \<and> (\<exists>new_board added.
            add_random_tile board dr = Inr (new_board, added) \<and> well_formed new_board)"
proof
  from assms have sq: "square board" by (simp add: well_formed_iff)
  show "\<exists>new_board score_delta changed.
            process_move board (Dir d) = Inr (new_board, score_delta, changed)
          \<and> well_formed new_board"
    using sq move_result_well_formed[OF assms, of d] by (simp add: process_move_eq)
  show "\<exists>new_board added.
            add_random_tile board dr = Inr (new_board, added) \<and> well_formed new_board"
    using assms by (rule add_random_tile_well_formed)
qed

theorem well_formed_preserved_witness:
  "well_formed [[2,0],[2,4]]
   \<and> process_move [[2,0],[2,4]] (Dir DOWN) = Inr ([[0,0],[4,4]], 4, True)
   \<and> well_formed [[0,0],[4,4]]
   \<and> add_random_tile [[2,0],[2,4]] \<lparr>pick = 0, below_tenth = False\<rparr> = Inr ([[2,2],[2,4]], True)
   \<and> well_formed [[2,2],[2,4]]"
proof -
  have wf: "well_formed [[2,0],[2,4]]" by code_simp
  have m: "process_move [[2,0],[2,4]] (Dir DOWN) = Inr ([[0,0],[4,4]], 4, True)" by code_simp
  have a: "add_random_tile [[2,0],[2,4]] \<lparr>pick = 0, below_tenth = False\<rparr>
             = Inr ([[2,2],[2,4]], True)" by code_simp
  from well_formed_preserved[OF wf, of DOWN "\<lparr>pick = 0, below_tenth = False\<rparr>"] wf m a
  show ?thesis by (simp del: process_move.simps)
qed

section \<open>Initialising a board\<close>

text \<open>
  What \<open>initialize_board\<close> does away from size 1: it raises \<open>ValueError\<close> exactly when
  the size is not a positive integer, and for every integer size from 2 on and every pair
  of draws it returns score 0, state \<open>IN_PROGRESS\<close> and a well-formed board of that size
  with exactly two non-zero cells, each 2 or 4.
\<close>

lemma initialize_board_from_two:
  "(\<not> positive_int sz \<longrightarrow> initialize_board sz d1 d2 = Inl ValueError)
   \<and> (positive_int sz \<longrightarrow> (\<exists>b. initialize_board sz d1 d2 = Inr (b, 0, IN_PROGRESS)))
   \<and> (2 \<le> k \<longrightarrow>
        (\<exists>b. initialize_board (IntSize k) d1 d2 = Inr (b, 0, IN_PROGRESS)
           \<and> well_formed b \<and> length b = nat k
           \<and> count_nonzero b = 2
           \<and> set (concat b) \<subseteq> {0, 2, 4}))"
proof (intro conjI impI)
  assume "\<not> positive_int sz"
  then show "initialize_board sz d1 d2 = Inl ValueError"
    by (cases sz) (simp_all add: positive_int_def initialize_board_def)
next
  assume "positive_int sz"
  then obtain j where "sz = IntSize j" "0 < j"
    by (cases sz) (simp_all add: positive_int_def)
  then show "\<exists>b. initialize_board sz d1 d2 = Inr (b, 0, IN_PROGRESS)"
    using initialize_board_positive[of j d1 d2] by blast
next
  assume "2 \<le> k"
  then have "0 < k" and "k \<noteq> 1" by simp_all
  then show "\<exists>b. initialize_board (IntSize k) d1 d2 = Inr (b, 0, IN_PROGRESS)
           \<and> well_formed b \<and> length b = nat k
           \<and> count_nonzero b = 2
           \<and> set (concat b) \<subseteq> {0, 2, 4}"
    using initialize_board_positive[of k d1 d2] by simp
qed

text \<open>
  C6. The claim asks, for every positive integer size, for a board seeded with exactly two
  tiles, as the docstring of \<open>initialize_board\<close> does ("with two random tiles"). At size 1
  the code does not deliver that: the size passes the guard \<open>size <= 0\<close>, the first tile
  fills the only cell, the second call of \<open>add_random_tile\<close> finds no empty cell and its
  \<open>added\<close> flag is discarded. The result is a board with one tile, returned with state
  \<open>IN_PROGRESS\<close> although \<open>determine_game_status\<close> classifies that board as
  \<open>GAME_OVER\<close>.
\<close>

theorem initialize_board_size_one:
  "initialize_board (IntSize 1) \<lparr>pick = 0, below_tenth = False\<rparr> \<lparr>pick = 0, below_tenth = False\<rparr>
     = Inr ([[2]], 0, IN_PROGRESS)
   \<and> count_nonzero [[2]] = 1
   \<and> count_nonzero [[2]] \<noteq> 2
   \<and> determine_game_status [[2]] 2048 = Inr GAME_OVER"
  by code_simp

section \<open>Conservation of tile value\<close>

text \<open>
  C2. For every square board and every direction of the enumeration, \<open>process_move\<close>
  returns a board whose cells sum to the same total as the input board. Moreover the move
  is accounted for by a list of merged pairs: the non-zero tiles of the input are some
  untouched tiles \<open>rest\<close> together with two copies of each value \<open>v\<close> in \<open>pairs\<close>, the
  non-zero tiles of the output are \<open>rest\<close> together with one tile \<open>v * 2\<close> for each such
  pair, and the score delta is the sum of these merge outputs \<open>v * 2\<close>.
\<close>

theorem move_conserves_tiles:
  assumes "square board"
  shows "\<exists>new_board score_delta changed pairs rest.
           process_move board (Dir d) = Inr (new_board, score_delta, changed)
         \<and> sum_list (concat new_board) = sum_list (concat board)
         \<and> 0 \<notin> set pairs
         \<and> mset (filter (\<lambda>v. v \<noteq> 0) (concat board)) = mset rest + mset pairs + mset pairs
         \<and> mset (filter (\<lambda>v. v \<noteq> 0) (concat new_board))
              = mset rest + mset (map (\<lambda>v. v * 2) pairs)
         \<and> score_delta = sum_list (map (\<lambda>v. v * 2) pairs)"
proof -
  let ?O = "orient d board"
  let ?new = "unorient d (map slide ?O)"
  let ?pairs = "board_merged ?O"
  let ?rest = "board_kept ?O"
  have sqO: "square (map slide ?O)" using assms by (simp add: square_orient)
  have run: "process_move board (Dir d) = Inr (?new, board_score ?O, board_moves ?O)"
    using assms by (simp add: process_move_eq)
  have inp: "mset (filter (\<lambda>v. v \<noteq> 0) (concat board)) = mset ?rest + mset ?pairs + mset ?pairs"
  proof -
    have "mset (filter (\<lambda>v. v \<noteq> 0) (concat board)) = filter_mset (\<lambda>v. v \<noteq> 0) (mset (concat ?O))"
      using assms by (simp add: mset_cells_orient)
    also have "\<dots> = mset (filter (\<lambda>v. v \<noteq> 0) (concat ?O))" by simp
    finally show ?thesis by (simp only: board_input_mset)
  qed
  have outp: "mset (filter (\<lambda>v. v \<noteq> 0) (concat ?new))
                = mset ?rest + mset (map (\<lambda>v. v * 2) ?pairs)"
  proof -
    have "mset (filter (\<lambda>v. v \<noteq> 0) (concat ?new))
            = filter_mset (\<lambda>v. v \<noteq> 0) (mset (concat (map slide ?O)))"
      using sqO by (simp add: mset_cells_unorient)
    also have "\<dots> = mset (filter (\<lambda>v. v \<noteq> 0) (concat (map slide ?O)))" by simp
    finally show ?thesis by (simp only: board_output_mset)
  qed
  have "sum_list (concat ?new) = sum_mset (mset (filter (\<lambda>v. v \<noteq> 0) (concat ?new)))"
    by (simp only: sum_mset_sum_list sum_list_filter_nonzero)
  also have "\<dots> = sum_list ?rest + sum_list (map (\<lambda>v. v * 2) ?pairs)"
    unfolding outp by (simp only: sum_mset.union sum_mset_sum_list)
  also have "\<dots> = sum_list ?rest + sum_list ?pairs + sum_list ?pairs"
    by (simp only: sum_list_doubled add.assoc)
  also have "\<dots> = sum_mset (mset (filter (\<lambda>v. v \<noteq> 0) (concat board)))"
    unfolding inp by (simp only: sum_mset.union sum_mset_sum_list)
  also have "\<dots> = sum_list (concat board)"
    by (simp only: sum_mset_sum_list sum_list_filter_nonzero)
  finally have total: "sum_list (concat ?new) = sum_list (concat board)" .
  from run total board_merged_nonzero[of ?O] inp outp board_score_merged[of ?O]
  show ?thesis by blast
qed

theorem move_conserves_tiles_witness:
  "square [[2,0],[2,4]]
   \<and> process_move [[2,0],[2,4]] (Dir DOWN) = Inr ([[0,0],[4,4]], 4, True)
   \<and> sum_list (concat [[0,0],[4,4::int]]) = sum_list (concat [[2,0],[2,4]])
   \<and> (\<exists>pairs rest. 0 \<notin> set pairs
         \<and> mset (filter (\<lambda>v. v \<noteq> 0) (concat [[2,0],[2,4::int]]))
              = mset rest + mset pairs + mset pairs
         \<and> mset (filter (\<lambda>v. v \<noteq> 0) (concat [[0,0],[4,4::int]]))
              = mset rest + mset (map (\<lambda>v. v * 2) pairs)
         \<and> (4::int) = sum_list (map (\<lambda>v. v * 2) pairs))"
proof -
  have sq: "square [[2,0],[2,4]]" by (simp add: square_def)
  have run: "process_move [[2,0],[2,4]] (Dir DOWN) = Inr ([[0,0],[4,4]], 4, True)"
    by code_simp
  from move_conserves_tiles[OF sq, of DOWN] obtain nb s ch pairs rest
    where r: "process_move [[2,0],[2,4]] (Dir DOWN) = Inr (nb, s, ch)"
      and t: "sum_list (concat nb) = sum_list (concat [[2,0],[2,4]])"
      and p: "0 \<notin> set pairs"
      and i: "mset (filter (\<lambda>v. v \<noteq> 0) (concat [[2,0],[2,4::int]]))
                = mset rest + mset pairs + mset pairs"
      and out: "mset (filter (\<lambda>v. v \<noteq> 0) (concat nb)) = mset rest + mset (map (\<lambda>v. v * 2) pairs)"
      and sc: "s = sum_list (map (\<lambda>v. v * 2) pairs)"
    by blast
  from r run have nb: "nb = [[0,0],[4,4]]" and s: "s = 4"
    by (simp_all del: process_move.simps)
  from sq run t p i out sc show ?thesis unfolding nb s by blast
qed

section \<open>Moving twice in the same direction\<close>

text \<open>
  C3, as stated, fails: the tiles a move produces by merging are not merged again in the
  same pass, so they can merge in the next one. Moving the row \<open>[2,2,2,2]\<close> left gives
  \<open>[4,4,0,0]\<close>, and moving left again changes the board to \<open>[8,0,0,0]\<close>.
\<close>

theorem second_move_changes_counterexample:
  "well_formed [[2,2,2,2],[0,0,0,0],[0,0,0,0],[0,0,0,0]]
   \<and> process_move [[2,2,2,2],[0,0,0,0],[0,0,0,0],[0,0,0,0]] (Dir LEFT)
        = Inr ([[4,4,0,0],[0,0,0,0],[0,0,0,0],[0,0,0,0]], 8, True)
   \<and> process_move [[4,4,0,0],[0,0,0,0],[0,0,0,0],[0,0,0,0]] (Dir LEFT)
        = Inr ([[8,0,0,0],[0,0,0,0],[0,0,0,0],[0,0,0,0]], 8, True)
   \<and> [[8,0,0,0],[0,0,0,0],[0,0,0,0],[0,0,0,0]] \<noteq> [[4,4,0,0],[0,0,0,0],[0,0,0,0],[0,0,0,0::int]]"
  by code_simp

text \<open>
  C3, amended. For every well-formed board and every direction of the enumeration, if
  \<open>process_move\<close> returns \<open>(board1, s1, c1)\<close>, then \<open>process_move\<close> on \<open>board1\<close> in the same
  direction returns some \<open>(board2, s2, c2)\<close> where the board changes only by merging
  (\<open>c2\<close> implies \<open>s2 > 0\<close>: no tile slides without a merge), an unchanged flag means the
  same board, and \<open>c2\<close> is false whenever the first move merged nothing (\<open>s1 = 0\<close>).
\<close>

theorem second_move_only_merges:
  assumes "well_formed board"
    and "process_move board (Dir d) = Inr (board1, s1, c1)"
  shows "\<exists>board2 s2 c2.
           process_move board1 (Dir d) = Inr (board2, s2, c2)
         \<and> (c2 \<longrightarrow> 0 < s2)
         \<and> (\<not> c2 \<longrightarrow> board2 = board1)
         \<and> (s1 = 0 \<longrightarrow> \<not> c2)"
proof -
  let ?O = "orient d board"
  from assms(1) have sq: "square board" and ok: "cells_ok board"
    by (simp_all add: well_formed_iff)
  have okO: "cells_ok ?O" using sq ok by (rule cells_ok_orient)
  have okS: "cells_ok (map slide ?O)" using okO by (rule cells_ok_map_slide)
  have rows_ok: "row \<in> set ?O \<Longrightarrow> list_all tile_ok row" for row
    using okO by (simp add: cells_ok_def list_all_iff)
  from assms(2) sq have b1: "board1 = unorient d (map slide ?O)" and s1: "s1 = board_score ?O"
    by (simp_all add: process_move_eq)
  let ?c2 = "board_moves (map slide ?O)"
  let ?s2 = "board_score (map slide ?O)"
  let ?b2 = "unorient d (map slide (map slide ?O))"
  have run2: "process_move board1 (Dir d) = Inr (?b2, ?s2, ?c2)"
    unfolding b1 using assms(1) by (rule second_move)
  have merges: "?c2 \<longrightarrow> 0 < ?s2"
  proof
    assume ?c2
    then obtain row where row: "row \<in> set ?O" "slide (slide row) \<noteq> slide row"
      by (auto simp: board_moves_def list_ex_iff)
    have "0 < line_score (slide row)"
      using rows_ok[OF row(1)] row(2) by (rule reslide_changes_score)
    moreover have "slide row \<in> set (map slide ?O)" using row(1) by simp
    ultimately show "0 < ?s2" using okS by (intro board_score_pos)
  qed
  have same: "\<not> ?c2 \<longrightarrow> ?b2 = board1"
    unfolding b1 using not_moves_fixed[of "map slide ?O"] by (simp del: map_map)
  have quiet: "s1 = 0 \<longrightarrow> \<not> ?c2"
  proof
    assume "s1 = 0"
    then have z: "board_score ?O = 0" using s1 by simp
    have "slide (slide row) = slide row" if "row \<in> set ?O" for row
      using rows_ok[OF that] board_score_zero_rows[OF okO z that]
      by (rule line_score_zero_settled)
    then show "\<not> ?c2" by (simp add: board_moves_def list_ex_iff)
  qed
  from run2 merges same quiet show ?thesis by blast
qed

theorem second_move_only_merges_witness:
  "well_formed [[0,2],[0,4]]
   \<and> process_move [[0,2],[0,4]] (Dir LEFT) = Inr ([[2,0],[4,0]], 0, True)
   \<and> process_move [[2,0],[4,0]] (Dir LEFT) = Inr ([[2,0],[4,0]], 0, False)
   \<and> well_formed [[2,2,2,2],[0,0,0,0],[0,0,0,0],[0,0,0,0]]
   \<and> process_move [[2,2,2,2],[0,0,0,0],[0,0,0,0],[0,0,0,0]] (Dir LEFT)
        = Inr ([[4,4,0,0],[0,0,0,0],[0,0,0,0],[0,0,0,0]], 8, True)
   \<and> (\<exists>board2 s2. process_move [[4,4,0,0],[0,0,0,0],[0,0,0,0],[0,0,0,0]] (Dir LEFT)
                      = Inr (board2, s2, True) \<and> 0 < s2)"
proof -
  have wfA: "well_formed [[0,2],[0,4]]" by code_simp
  have runA: "process_move [[0,2],[0,4]] (Dir LEFT) = Inr ([[2,0],[4,0]], 0, True)"
    by code_simp
  from second_move_only_merges[OF wfA runA] obtain a2 sa ca
    where a: "process_move [[2,0],[4,0]] (Dir LEFT) = Inr (a2, sa, ca)"
      and a_same: "\<not> ca \<longrightarrow> a2 = [[2,0],[4,0]]" and a_quiet: "\<not> ca" and a_m: "ca \<longrightarrow> 0 < sa"
    by auto
  have runA2: "process_move [[2,0],[4,0]] (Dir LEFT) = Inr ([[2,0],[4,0]], 0, False)"
    by code_simp
  have wfB: "well_formed [[2,2,2,2],[0,0,0,0],[0,0,0,0],[0,0,0,0]]" by code_simp
  have runB: "process_move [[2,2,2,2],[0,0,0,0],[0,0,0,0],[0,0,0,0]] (Dir LEFT)
        = Inr ([[4,4,0,0],[0,0,0,0],[0,0,0,0],[0,0,0,0]], 8, True)"
    by code_simp
  from second_move_only_merges[OF wfB runB] obtain b2 sb cb
    where b: "process_move [[4,4,0,0],[0,0,0,0],[0,0,0,0],[0,0,0,0]] (Dir LEFT) = Inr (b2, sb, cb)"
      and b_m: "cb \<longrightarrow> 0 < sb"
    by auto
  have runB2: "process_move [[4,4,0,0],[0,0,0,0],[0,0,0,0],[0,0,0,0]] (Dir LEFT)
        = Inr ([[8,0,0,0],[0,0,0,0],[0,0,0,0],[0,0,0,0]], 8, True)"
    by code_simp
  from b runB2 have "cb" by (simp del: process_move.simps)
  with b b_m have "\<exists>board2 s2. process_move [[4,4,0,0],[0,0,0,0],[0,0,0,0],[0,0,0,0]] (Dir LEFT)
                      = Inr (board2, s2, True) \<and> 0 < s2"
    by (auto simp del: process_move.simps)
  with wfA runA runA2 wfB runB show ?thesis by (simp del: process_move.simps)
qed

end
